theory Spec2Isabelle
  imports Complex_Main "HOL-Library.Sublist" "HOL-Library.Log_Nat"
begin

unbundle bit_operations_syntax

section \<open>Data model (app/models.py)\<close>

text \<open>
  Python integers are unbounded, so every integer field is an \<open>int\<close>. A calendar date is
  represented by its proleptic Gregorian ordinal: Python compares two \<open>date\<close> values exactly
  as it compares their ordinals. A string is a list of 8-bit characters, each read as the
  Unicode code point of the same number (the Latin-1 range); a Python string with a code
  point from 256 on has no counterpart in this model. On this range \<open>str.strip()\<close> removes
  the code points 9 to 13, 28 to 32, 133 and 160 from both ends, and \<open>str.lower()\<close> adds 32
  to the code points 65 to 90 and 192 to 222 except 215 and leaves every other one unchanged.
\<close>

type_synonym date = int

record Truck =
  truck_id :: string
  max_weight_lbs :: int
  max_volume_cuft :: int

record Order =
  order_id :: string
  payout_cents :: int
  weight_lbs :: int
  volume_cuft :: int
  origin :: string
  destination :: string
  pickup_date :: date
  delivery_date :: date
  is_hazmat :: bool

section \<open>Compatibility evaluator (LoadOptimizer.\_check\_*)\<close>

definition py_isspace :: "char \<Rightarrow> bool" where
  "py_isspace c \<longleftrightarrow>
     (let k = (of_char c :: nat)
      in (9 \<le> k \<and> k \<le> 13) \<or> (28 \<le> k \<and> k \<le> 32) \<or> k = 133 \<or> k = 160)"

definition py_strip :: "string \<Rightarrow> string" where
  "py_strip s = rev (dropWhile py_isspace (rev (dropWhile py_isspace s)))"

definition py_lower_char :: "char \<Rightarrow> char" where
  "py_lower_char c =
     (let k = (of_char c :: nat)
      in if (65 \<le> k \<and> k \<le> 90) \<or> (192 \<le> k \<and> k \<le> 222 \<and> k \<noteq> 215)
         then char_of (k + 32) else c)"

definition py_lower :: "string \<Rightarrow> string" where
  "py_lower s = map py_lower_char s"

definition check_time_windows :: "Order \<Rightarrow> Order \<Rightarrow> bool" where
  "check_time_windows order1 order2 =
     (let latest_pickup = max (pickup_date order1) (pickup_date order2);
          earliest_delivery = min (delivery_date order1) (delivery_date order2)
      in latest_pickup \<le> earliest_delivery)"

definition check_same_route :: "Order \<Rightarrow> Order \<Rightarrow> bool" where
  "check_same_route order1 order2 =
     (let origin_match = (py_lower (py_strip (origin order1)) = py_lower (py_strip (origin order2)));
          dest_match = (py_lower (py_strip (destination order1))
                          = py_lower (py_strip (destination order2)))
      in origin_match \<and> dest_match)"

definition check_hazmat_ok :: "Order \<Rightarrow> Order \<Rightarrow> bool" where
  "check_hazmat_ok order1 order2 = (is_hazmat order1 = is_hazmat order2)"

text \<open>The conjunction evaluated for each pair inside \<open>_build_compatibility_masks\<close>.\<close>

definition can_combine :: "Order \<Rightarrow> Order \<Rightarrow> bool" where
  "can_combine order1 order2 =
     (check_same_route order1 order2 \<and> check_time_windows order1 order2
        \<and> check_hazmat_ok order1 order2)"

section \<open>Compatibility graph builder\<close>

text \<open>
  Bit masks are Python integers. \<open>masks[i] |= (1 << j)\<close> is a list update; the inner loop
  runs over \<open>range(i + 1, n)\<close> and the outer one over \<open>range(n)\<close>.
\<close>

definition set_pair :: "nat \<Rightarrow> nat \<Rightarrow> int list \<Rightarrow> int list" where
  "set_pair i j masks =
     (let m1 = masks[i := (masks ! i) OR push_bit j 1]
      in m1[j := (m1 ! j) OR push_bit i 1])"

definition build_row :: "Order list \<Rightarrow> nat \<Rightarrow> int list \<Rightarrow> int list" where
  "build_row orders i masks =
     fold (\<lambda>j m. if can_combine (orders ! i) (orders ! j) then set_pair i j m else m)
          [i + 1 ..< length orders]
          (masks[i := (masks ! i) OR push_bit i 1])"

definition build_compatibility_masks :: "Order list \<Rightarrow> int list" where
  "build_compatibility_masks orders =
     fold (build_row orders) [0 ..< length orders] (replicate (length orders) 0)"

section \<open>Search order and bound table\<close>

text \<open>
  \<open>sorted(xs, key=k, reverse=True)\<close> is a stable sort by descending key: elements with equal
  keys keep their input order. A stable sort has exactly one result, which the stable
  insertion sort of the library computes on the negated key.
\<close>

definition py_sorted_reverse :: "('a \<Rightarrow> int) \<Rightarrow> 'a list \<Rightarrow> 'a list" where
  "py_sorted_reverse k xs = sort_key (\<lambda>x. - k x) xs"

definition order_by_value_of :: "int list \<Rightarrow> nat list" where
  "order_by_value_of payouts = py_sorted_reverse (\<lambda>i. payouts ! i) [0 ..< length payouts]"

definition suffix_payout_of :: "int list \<Rightarrow> nat list \<Rightarrow> int list" where
  "suffix_payout_of payouts obv =
     fold (\<lambda>i s. s[i := s ! (i + 1) + payouts ! (obv ! i)])
          (rev [0 ..< length payouts])
          (replicate (length payouts + 1) 0)"

section \<open>Branch-and-bound engine\<close>

text \<open>
  The variables the closure \<open>search\<close> captures from \<open>optimize\<close> are collected in a record.
  The two mutable cells \<open>best_payout[0]\<close> and \<open>best_selection[0]\<close> are threaded through the
  recursion as a pair: a call takes the incumbent and returns the incumbent it leaves.
  The index \<open>idx\<close> grows by one in every call and the recursion stops at \<open>idx = n\<close>, which is
  the termination argument. With the tables that \<open>optimize\<close> builds every list access of
  \<open>search\<close> is in range, so the function has no \<open>IndexError\<close> branch. The interpreter's
  recursion limit and the running time are outside the model.
\<close>

record search_env =
  env_n :: nat
  compat_masks :: "int list"
  payouts :: "int list"
  weights :: "int list"
  volumes :: "int list"
  max_weight :: int
  max_volume :: int
  order_by_value :: "nat list"
  suffix_payout :: "int list"

type_synonym incumbent = "int \<times> nat list"

text \<open>\<open>[order_by_value[i] for i in range(idx) if selected_mask & (1 << i)]\<close>\<close>

definition selection_of :: "search_env \<Rightarrow> nat \<Rightarrow> int \<Rightarrow> nat list" where
  "selection_of E idx selected_mask =
     map (\<lambda>i. order_by_value E ! i)
         (filter (\<lambda>i. selected_mask AND push_bit i 1 \<noteq> 0) [0 ..< idx])"

function search ::
  "search_env \<Rightarrow> nat \<Rightarrow> int \<Rightarrow> int \<Rightarrow> int \<Rightarrow> int \<Rightarrow> int \<Rightarrow> incumbent \<Rightarrow> incumbent"
where
  "search E idx selected_mask curr_payout curr_weight curr_volume valid_orders best =
     (let best1 = (if curr_payout > fst best
                   then (curr_payout, selection_of E idx selected_mask) else best)
      in if idx \<ge> env_n E then best1
         else if curr_payout + suffix_payout E ! idx \<le> fst best1 then best1
         else
           let order_idx = order_by_value E ! idx;
               best2 =
                 (if valid_orders AND push_bit order_idx 1 \<noteq> 0 then
                    let new_weight = curr_weight + weights E ! order_idx;
                        new_volume = curr_volume + volumes E ! order_idx
                    in if new_weight \<le> max_weight E \<and> new_volume \<le> max_volume E then
                         let new_valid = valid_orders AND compat_masks E ! order_idx
                         in search E (idx + 1) (selected_mask OR push_bit idx 1)
                              (curr_payout + payouts E ! order_idx)
                              new_weight new_volume new_valid best1
                       else best1
                  else best1)
           in search E (idx + 1) selected_mask curr_payout curr_weight curr_volume
                valid_orders best2)"
  by pat_completeness auto

termination
  by (relation "measure (\<lambda>(E, idx, _). env_n E - idx)") auto

declare search.simps [simp del]

section \<open>LoadOptimizer.optimize\<close>

definition make_env :: "Truck \<Rightarrow> Order list \<Rightarrow> search_env" where
  "make_env truck orders =
     (let ps = map payout_cents orders;
          obv = order_by_value_of ps
      in \<lparr> env_n = length orders,
           compat_masks = build_compatibility_masks orders,
           payouts = ps,
           weights = map weight_lbs orders,
           volumes = map volume_cuft orders,
           max_weight = max_weight_lbs truck,
           max_volume = max_volume_cuft truck,
           order_by_value = obv,
           suffix_payout = suffix_payout_of ps obv \<rparr>)"

text \<open>The incumbent left by \<open>search(0, 0, 0, 0, 0, all_orders_valid)\<close>.\<close>

definition run_search :: "Truck \<Rightarrow> Order list \<Rightarrow> incumbent" where
  "run_search truck orders =
     (let E = make_env truck orders;
          all_orders_valid = push_bit (env_n E) 1 - 1
      in search E 0 0 0 0 0 all_orders_valid (0, []))"

text \<open>The tuple \<open>(selected_ids, best_payout, total_weight, total_volume)\<close>.\<close>

definition optimize :: "Truck \<Rightarrow> Order list \<Rightarrow> string list \<times> int \<times> int \<times> int" where
  "optimize truck orders =
     (if length orders = 0 then ([], 0, 0, 0)
      else
        let best = run_search truck orders;
            selected_ids = map (\<lambda>i. order_id (orders ! i)) (snd best);
            total_weight = sum_list (map (\<lambda>i. map weight_lbs orders ! i) (snd best));
            total_volume = sum_list (map (\<lambda>i. map volume_cuft orders ! i) (snd best))
        in (selected_ids, fst best, total_weight, total_volume))"

section \<open>Floating point results of \<open>optimize_load\<close>\<close>

text \<open>
  A Python \<open>float\<close> is an IEEE 754 binary64 value. The finite ones are rational numbers, so
  a float is modelled by the rational it denotes, or by one of the two infinities (no
  operation below produces a NaN; the sign of a zero is not represented). Every operation
  rounds its exact result to the nearest representable value, ties to the even significand:
  \<^item> \<open>a / b\<close> on two integers is correctly rounded, raises \<open>ZeroDivisionError\<close> for
    \<open>b = 0\<close> and \<open>OverflowError\<close> when the quotient is too large for a float;
  \<^item> \<open>x * 100\<close> is the IEEE product, which overflows to an infinity;
  \<^item> \<open>round(x, 2)\<close> rounds the exact value of \<open>x\<close> to two decimals, halves to the even
    digit, and converts that decimal back to the nearest float.
\<close>

datatype py_error = ZeroDivisionError | OverflowError

datatype py_float = Finite rat | PosInf | NegInf

definition pow2 :: "int \<Rightarrow> rat" where
  "pow2 e = (if 0 \<le> e then 2 ^ nat e else 1 / 2 ^ nat (- e))"

definition round_half_even :: "rat \<Rightarrow> int" where
  "round_half_even q =
     (let f = \<lfloor>q\<rfloor>; d = q - of_int f
      in if d < 1 / 2 then f else if 1 / 2 < d then f + 1 else if even f then f else f + 1)"

text \<open>The exponent of the leading bit of a positive rational: the floor of its binary logarithm.\<close>

definition ilog2 :: "rat \<Rightarrow> int" where
  "ilog2 q =
     (let e = bitlen (fst (quotient_of q)) - bitlen (snd (quotient_of q))
      in if pow2 e \<le> q then e else e - 1)"

definition round_binary64 :: "rat \<Rightarrow> py_float" where
  "round_binary64 q =
     (if q = 0 then Finite 0
      else
        let a = \<bar>q\<bar>;
            e = max (ilog2 a) (- 1022);
            ulp = pow2 (e - 52);
            r = of_int (round_half_even (a / ulp)) * ulp
        in if pow2 1024 \<le> r then (if 0 < q then PosInf else NegInf)
           else Finite (if 0 < q then r else - r))"

definition py_truediv :: "int \<Rightarrow> int \<Rightarrow> py_error + py_float" where
  "py_truediv a b =
     (if b = 0 then Inl ZeroDivisionError
      else case round_binary64 (of_int a / of_int b) of
             Finite r \<Rightarrow> Inr (Finite r)
           | _ \<Rightarrow> Inl OverflowError)"

definition py_mul_100 :: "py_float \<Rightarrow> py_float" where
  "py_mul_100 x = (case x of Finite r \<Rightarrow> round_binary64 (r * 100) | _ \<Rightarrow> x)"

definition py_round2 :: "py_float \<Rightarrow> py_float" where
  "py_round2 x =
     (case x of
        Finite r \<Rightarrow> round_binary64 (of_int (round_half_even (r * 100)) / 100)
      | _ \<Rightarrow> x)"

section \<open>optimize\_load\<close>

record OptimizeResult =
  result_truck_id :: string
  selected_order_ids :: "string list"
  total_payout_cents :: int
  total_weight_lbs :: int
  total_volume_cuft :: int
  utilization_weight_percent :: py_float
  utilization_volume_percent :: py_float

text \<open>\<open>util = 0.0; if capacity > 0: util = (used / capacity) * 100\<close>\<close>

definition utilization :: "int \<Rightarrow> int \<Rightarrow> py_error + py_float" where
  "utilization used capacity =
     (if capacity > 0 then
        (case py_truediv used capacity of
           Inl e \<Rightarrow> Inl e
         | Inr x \<Rightarrow> Inr (py_mul_100 x))
      else Inr (Finite 0))"

definition optimize_load :: "Truck \<Rightarrow> Order list \<Rightarrow> py_error + OptimizeResult" where
  "optimize_load truck orders =
     (case optimize truck orders of
        (selected_ids, total_payout, total_weight, total_volume) \<Rightarrow>
          (case utilization total_weight (max_weight_lbs truck) of
             Inl e \<Rightarrow> Inl e
           | Inr weight_util \<Rightarrow>
               (case utilization total_volume (max_volume_cuft truck) of
                  Inl e \<Rightarrow> Inl e
                | Inr volume_util \<Rightarrow>
                    Inr \<lparr> result_truck_id = truck_id truck,
                          selected_order_ids = selected_ids,
                          total_payout_cents = total_payout,
                          total_weight_lbs = total_weight,
                          total_volume_cuft = total_volume,
                          utilization_weight_percent = py_round2 weight_util,
                          utilization_volume_percent = py_round2 volume_util \<rparr>)))"

section \<open>Input contract and the specification of the optimum\<close>

text \<open>
  The preconditions the surrounding layer validates: positive capacities, non-negative
  payouts, positive weights and volumes.
\<close>

definition truck_ok :: "Truck \<Rightarrow> bool" where
  "truck_ok truck \<longleftrightarrow> 0 < max_weight_lbs truck \<and> 0 < max_volume_cuft truck"

definition orders_ok :: "Order list \<Rightarrow> bool" where
  "orders_ok orders \<longleftrightarrow>
     (\<forall>ord \<in> set orders. 0 \<le> payout_cents ord \<and> 0 < weight_lbs ord \<and> 0 < volume_cuft ord)"

definition valid_input :: "Truck \<Rightarrow> Order list \<Rightarrow> bool" where
  "valid_input truck orders \<longleftrightarrow> truck_ok truck \<and> orders_ok orders"

text \<open>
  The specification, in the words of the optimality property: a load is a sub-list of the
  orders; it is feasible when its total weight and volume are within the truck's capacities
  and every two of its members are compatible; the optimum is the largest total payout of a
  feasible load, found by enumerating all sub-lists.
\<close>

fun pairwise_compatible :: "Order list \<Rightarrow> bool" where
  "pairwise_compatible [] = True"
| "pairwise_compatible (x # xs) = ((\<forall>y \<in> set xs. can_combine x y) \<and> pairwise_compatible xs)"

definition load_payout :: "Order list \<Rightarrow> int" where
  "load_payout ys = sum_list (map payout_cents ys)"

definition load_weight :: "Order list \<Rightarrow> int" where
  "load_weight ys = sum_list (map weight_lbs ys)"

definition load_volume :: "Order list \<Rightarrow> int" where
  "load_volume ys = sum_list (map volume_cuft ys)"

definition feasible_load :: "Truck \<Rightarrow> Order list \<Rightarrow> bool" where
  "feasible_load truck ys \<longleftrightarrow>
     load_weight ys \<le> max_weight_lbs truck \<and> load_volume ys \<le> max_volume_cuft truck
       \<and> pairwise_compatible ys"

definition brute_force_payout :: "Truck \<Rightarrow> Order list \<Rightarrow> int" where
  "brute_force_payout truck orders =
     Max (set (map load_payout (filter (feasible_load truck) (subseqs orders))))"

text \<open>
  An additional order is dominated by an order of the list when its payout is no higher, its
  weight and volume are no lower, and it is compatible with no order that the dominating
  order is incompatible with.
\<close>

definition dominated :: "Order list \<Rightarrow> Order \<Rightarrow> bool" where
  "dominated orders new \<longleftrightarrow>
     (\<exists>d \<in> set orders.
        payout_cents new \<le> payout_cents d \<and> weight_lbs d \<le> weight_lbs new
          \<and> volume_cuft d \<le> volume_cuft new
          \<and> (\<forall>x \<in> set orders. can_combine new x \<longrightarrow> can_combine d x))"

section \<open>Specification of the compatibility rule\<close>

text \<open>
  The route rule, stated on code points and without the functions of the evaluator. The
  white space characters and the upper-case letters of the Latin-1 range are listed. A
  trimmed form of a string is what is left of it between a leading and a trailing run of
  white space, with no white space at either of its own ends. Two strings are equal ignoring
  case when they have the same length and agree position by position, up to the case of a
  listed upper-case letter, whose lower-case form is 32 code points above it.
\<close>

definition whitespace_code_points :: "nat list" where
  "whitespace_code_points = [9, 10, 11, 12, 13, 28, 29, 30, 31, 32, 133, 160]"

definition upper_case_code_points :: "nat list" where
  "upper_case_code_points = [65 ..< 91] @ [192 ..< 215] @ [216 ..< 223]"

definition is_whitespace :: "char \<Rightarrow> bool" where
  "is_whitespace c \<longleftrightarrow> of_char c \<in> set whitespace_code_points"

definition trimmed_form :: "string \<Rightarrow> string \<Rightarrow> bool" where
  "trimmed_form s t \<longleftrightarrow>
     (\<exists>l r. s = l @ t @ r \<and> list_all is_whitespace l \<and> list_all is_whitespace r)
   \<and> (t = [] \<or> (\<not> is_whitespace (hd t) \<and> \<not> is_whitespace (last t)))"

definition same_letter :: "char \<Rightarrow> char \<Rightarrow> bool" where
  "same_letter c d \<longleftrightarrow>
     c = d
   \<or> (of_char c \<in> set upper_case_code_points \<and> (of_char d :: nat) = of_char c + 32)
   \<or> (of_char d \<in> set upper_case_code_points \<and> (of_char c :: nat) = of_char d + 32)"

definition equal_ignoring_case :: "string \<Rightarrow> string \<Rightarrow> bool" where
  "equal_ignoring_case s t \<longleftrightarrow> list_all2 same_letter s t"

definition same_place :: "string \<Rightarrow> string \<Rightarrow> bool" where
  "same_place s t \<longleftrightarrow>
     (\<exists>a b. trimmed_form s a \<and> trimmed_form t b \<and> equal_ignoring_case a b)"

text \<open>
  Case folding as Unicode defines it (\<open>str.casefold()\<close>). On the Latin-1 range it
  lower-cases an upper-case letter, maps the micro sign 181 to the Greek letter mu 956 and
  expands the sharp s 223 to two letters s; its result can leave the Latin-1 range, so it is
  a list of code points. \<open>compatible_as_claimed\<close> is the compatibility rule in which origins
  and destinations are compared after trimming and case folding.
\<close>

definition case_fold_char :: "char \<Rightarrow> nat list" where
  "case_fold_char c =
     (let k = (of_char c :: nat)
      in if k \<in> set upper_case_code_points then [k + 32]
         else if k = 181 then [956]
         else if k = 223 then [115, 115]
         else [k])"

definition case_fold :: "string \<Rightarrow> nat list" where
  "case_fold s = concat (map case_fold_char s)"

definition same_place_folded :: "string \<Rightarrow> string \<Rightarrow> bool" where
  "same_place_folded s t \<longleftrightarrow>
     (\<exists>a b. trimmed_form s a \<and> trimmed_form t b \<and> case_fold a = case_fold b)"

definition compatible_as_claimed :: "Order \<Rightarrow> Order \<Rightarrow> bool" where
  "compatible_as_claimed order1 order2 \<longleftrightarrow>
     same_place_folded (origin order1) (origin order2)
   \<and> same_place_folded (destination order1) (destination order2)
   \<and> max (pickup_date order1) (pickup_date order2)
        \<le> min (delivery_date order1) (delivery_date order2)
   \<and> is_hazmat order1 = is_hazmat order2"

section \<open>Specification of the utilization percentages\<close>

text \<open>
  The finite binary64 values are the products of an integer significand of magnitude below
  \<open>2 ^ 53\<close> and a power of two with an exponent from -1074 to 971. A nearest binary64
  value of a rational is one that is at least as close to it as every other binary64 value.
\<close>

definition binary64 :: "rat \<Rightarrow> bool" where
  "binary64 x \<longleftrightarrow>
     (\<exists>m e :: int. \<bar>m\<bar> < 2 ^ 53 \<and> - 1074 \<le> e \<and> e \<le> 971 \<and> x = of_int m * 2 powi e)"

definition nearest_binary64 :: "rat \<Rightarrow> rat \<Rightarrow> bool" where
  "nearest_binary64 q x \<longleftrightarrow> binary64 x \<and> (\<forall>z. binary64 z \<longrightarrow> \<bar>q - x\<bar> \<le> \<bar>q - z\<bar>)"

text \<open>
  \<open>rounded_percentage used capacity u\<close>: the float \<open>u\<close> is \<open>(used / capacity) * 100\<close>
  rounded to two decimals in floating point arithmetic, that is: the quotient is rounded to
  a nearest binary64 value \<open>x\<close>, the product \<open>x * 100\<close> to a nearest binary64 value
  \<open>y\<close>, \<open>y\<close> to a nearest multiple \<open>k / 100\<close> of one hundredth, and this decimal is
  converted to a nearest binary64 value. \<open>close_to_percentage used capacity u\<close>: \<open>u\<close> is
  finite and differs from the exact percentage \<open>100 * used / capacity\<close> by at most 0.00501,
  half a hundredth for the rounding to two decimals and a margin for the float roundings.
\<close>

definition rounded_percentage :: "int \<Rightarrow> int \<Rightarrow> py_float \<Rightarrow> bool" where
  "rounded_percentage used capacity u \<longleftrightarrow>
     (\<exists>x y w. \<exists>k :: int.
        nearest_binary64 (of_int used / of_int capacity) x
      \<and> nearest_binary64 (x * 100) y
      \<and> \<bar>y * 100 - of_int k\<bar> \<le> 1 / 2
      \<and> nearest_binary64 (of_int k / 100) w
      \<and> u = Finite w)"

definition close_to_percentage :: "int \<Rightarrow> int \<Rightarrow> py_float \<Rightarrow> bool" where
  "close_to_percentage used capacity u \<longleftrightarrow>
     (\<exists>w. u = Finite w \<and> \<bar>w - 100 * of_int used / of_int capacity\<bar> \<le> 501 / 100000)"

section \<open>A sample request (tests/test\_optimizer.py, test\_sample\_request)\<close>

text \<open>Dates are the ordinals of 2025-12-04 to 2025-12-10.\<close>

definition sample_truck :: Truck where
  "sample_truck = \<lparr> truck_id = ''truck-123'', max_weight_lbs = 44000, max_volume_cuft = 3000 \<rparr>"

definition ord_001 :: Order where
  "ord_001 = \<lparr> order_id = ''ord-001'', payout_cents = 250000, weight_lbs = 18000,
     volume_cuft = 1200, origin = ''Los Angeles, CA'', destination = ''Dallas, TX'',
     pickup_date = 739590, delivery_date = 739594, is_hazmat = False \<rparr>"

definition ord_002 :: Order where
  "ord_002 = \<lparr> order_id = ''ord-002'', payout_cents = 180000, weight_lbs = 12000,
     volume_cuft = 900, origin = ''Los Angeles, CA'', destination = ''Dallas, TX'',
     pickup_date = 739589, delivery_date = 739595, is_hazmat = False \<rparr>"

definition ord_003 :: Order where
  "ord_003 = \<lparr> order_id = ''ord-003'', payout_cents = 320000, weight_lbs = 30000,
     volume_cuft = 1800, origin = ''Los Angeles, CA'', destination = ''Dallas, TX'',
     pickup_date = 739591, delivery_date = 739593, is_hazmat = True \<rparr>"

definition sample_orders :: "Order list" where
  "sample_orders = [ord_001, ord_002, ord_003]"

text \<open>Two further orders on the same route: one that pays nothing, one dominated by \<open>ord-002\<close>.\<close>

definition ord_free :: Order where
  "ord_free = \<lparr> order_id = ''ord-free'', payout_cents = 0, weight_lbs = 1000,
     volume_cuft = 100, origin = '' los angeles, ca'', destination = ''DALLAS, TX '',
     pickup_date = 739590, delivery_date = 739594, is_hazmat = False \<rparr>"

definition ord_dominated :: Order where
  "ord_dominated = \<lparr> order_id = ''ord-004'', payout_cents = 170000, weight_lbs = 13000,
     volume_cuft = 900, origin = ''Los Angeles, CA'', destination = ''Dallas, TX'',
     pickup_date = 739590, delivery_date = 739594, is_hazmat = False \<rparr>"

text \<open>A truck that violates the capacity precondition.\<close>

definition zero_capacity_truck :: Truck where
  "zero_capacity_truck = \<lparr> truck_id = ''truck-0'', max_weight_lbs = 0, max_volume_cuft = 3000 \<rparr>"

text \<open>
  Two orders on one route whose origins are the same word in upper case and in lower case
  with a sharp s (code point 223): equal after case folding, different after lower-casing.
\<close>

definition strasse_upper :: Order where
  "strasse_upper = \<lparr> order_id = ''ord-a'', payout_cents = 1000, weight_lbs = 10,
     volume_cuft = 10, origin = ''STRASSE'', destination = ''Wien'',
     pickup_date = 739590, delivery_date = 739594, is_hazmat = False \<rparr>"

definition strasse_sharp :: Order where
  "strasse_sharp = \<lparr> order_id = ''ord-b'', payout_cents = 1000, weight_lbs = 10,
     volume_cuft = 10, origin = ''Stra'' @ [CHR 0xDF] @ ''e'', destination = ''Wien'',
     pickup_date = 739590, delivery_date = 739594, is_hazmat = False \<rparr>"

section \<open>Auxiliary notions for the proofs\<close>

text \<open>
  Loop invariants of the mask builder, for a relation \<open>R\<close> on indices: after the rows below
  \<open>k\<close> are done, and inside row \<open>i\<close> after the columns below \<open>l\<close> are done.
\<close>

definition outer_inv :: "(nat \<Rightarrow> nat \<Rightarrow> bool) \<Rightarrow> nat \<Rightarrow> int list \<Rightarrow> bool" where
  "outer_inv R k m \<longleftrightarrow>
     (\<forall>a<length m. \<forall>b. bit (m ! a) b \<longleftrightarrow> (b < length m \<and> min a b < k \<and> (a = b \<or> R a b)))"

definition row_inv :: "(nat \<Rightarrow> nat \<Rightarrow> bool) \<Rightarrow> nat \<Rightarrow> nat \<Rightarrow> int list \<Rightarrow> bool" where
  "row_inv R i l m \<longleftrightarrow>
     (\<forall>a<length m. \<forall>b. bit (m ! a) b \<longleftrightarrow>
        (b < length m \<and> ((min a b < i \<and> (a = b \<or> R a b)) \<or> (a = i \<and> b = i)
            \<or> (min a b = i \<and> a \<noteq> b \<and> max a b < l \<and> R a b))))"

text \<open>
  The nodes of the decision tree that \<open>search\<close> can enter, whatever the incumbent is: the
  root, and the children of a node that is neither terminal nor pruned. A node is not pruned
  only if its suffix bound is positive, because the incumbent is at least the node's payout
  once the node has been entered.
\<close>

inductive visits :: "search_env \<Rightarrow> nat \<Rightarrow> int \<Rightarrow> int \<Rightarrow> int \<Rightarrow> int \<Rightarrow> int \<Rightarrow> bool"
  for E :: search_env
where
  root: "visits E 0 0 0 0 0 (push_bit (env_n E) 1 - 1)"
| take_order:
    "visits E idx selected_mask curr_payout curr_weight curr_volume valid_orders \<Longrightarrow>
     idx < env_n E \<Longrightarrow> 0 < suffix_payout E ! idx \<Longrightarrow>
     order_idx = order_by_value E ! idx \<Longrightarrow>
     valid_orders AND push_bit order_idx 1 \<noteq> 0 \<Longrightarrow>
     curr_weight + weights E ! order_idx \<le> max_weight E \<Longrightarrow>
     curr_volume + volumes E ! order_idx \<le> max_volume E \<Longrightarrow>
     visits E (idx + 1) (selected_mask OR push_bit idx 1) (curr_payout + payouts E ! order_idx)
       (curr_weight + weights E ! order_idx) (curr_volume + volumes E ! order_idx)
       (valid_orders AND compat_masks E ! order_idx)"
| skip_order:
    "visits E idx selected_mask curr_payout curr_weight curr_volume valid_orders \<Longrightarrow>
     idx < env_n E \<Longrightarrow> 0 < suffix_payout E ! idx \<Longrightarrow>
     visits E (idx + 1) selected_mask curr_payout curr_weight curr_volume valid_orders"

definition from_visit :: "search_env \<Rightarrow> incumbent \<Rightarrow> bool" where
  "from_visit E b \<longleftrightarrow>
     (\<exists>idx selected_mask curr_payout curr_weight curr_volume valid_orders.
        visits E idx selected_mask curr_payout curr_weight curr_volume valid_orders
        \<and> b = (curr_payout, selection_of E idx selected_mask))"

text \<open>What the search needs from the tables that \<open>optimize\<close> precomputes.\<close>

definition env_wf :: "search_env \<Rightarrow> bool" where
  "env_wf E \<longleftrightarrow>
     length (order_by_value E) = env_n E \<and> distinct (order_by_value E)
   \<and> set (order_by_value E) = {..< env_n E}
   \<and> (\<forall>i \<le> env_n E. suffix_payout E ! i
          = sum_list (map (\<lambda>j. payouts E ! j) (drop i (order_by_value E))))
   \<and> (\<forall>a b. a \<le> b \<and> b < env_n E
          \<longrightarrow> payouts E ! (order_by_value E ! b) \<le> payouts E ! (order_by_value E ! a))
   \<and> (\<forall>i < env_n E. \<forall>j < env_n E. bit (compat_masks E ! i) j = bit (compat_masks E ! j) i)"

text \<open>A set of order indices that fits the truck and is pairwise compatible by the masks.\<close>

definition feasible_set :: "search_env \<Rightarrow> nat set \<Rightarrow> bool" where
  "feasible_set E S \<longleftrightarrow>
     S \<subseteq> {..< env_n E}
   \<and> (\<Sum>i\<in>S. weights E ! i) \<le> max_weight E
   \<and> (\<Sum>i\<in>S. volumes E ! i) \<le> max_volume E
   \<and> (\<forall>a\<in>S. \<forall>b\<in>S. a \<noteq> b \<longrightarrow> bit (compat_masks E ! a) b)"

section \<open>The compatibility evaluator\<close>

lemma can_combine_sym: "can_combine a b = can_combine b a"
  by (auto simp: can_combine_def check_same_route_def check_time_windows_def check_hazmat_ok_def Let_def max.commute min.commute)

lemma py_strip_surrounding:
  assumes "\<forall>c \<in> set a. py_isspace c" "\<forall>c \<in> set b. py_isspace c"
  shows "py_strip (a @ s @ b) = py_strip s"
proof -
  have 1: "dropWhile py_isspace (a @ s @ b) = dropWhile py_isspace (s @ b)"
    using assms(1) by (simp add: dropWhile_append2)
  have 2: "dropWhile py_isspace (rev (dropWhile py_isspace (s @ b)))
             = dropWhile py_isspace (rev (dropWhile py_isspace s))"
  proof (cases "\<forall>c \<in> set s. py_isspace c")
    case True
    then have e1: "dropWhile py_isspace (s @ b) = []" and e2: "dropWhile py_isspace s = []"
      using assms(2) by (simp_all add: dropWhile_eq_Nil_conv ball_Un)
    show ?thesis unfolding e1 e2 ..
  next
    case False
    then have "dropWhile py_isspace (s @ b) = dropWhile py_isspace s @ b"
      by (auto simp: dropWhile_append1)
    moreover have "dropWhile py_isspace (rev b @ rev (dropWhile py_isspace s))
        = dropWhile py_isspace (rev (dropWhile py_isspace s))"
      by (rule dropWhile_append2) (use assms(2) in simp)
    ultimately show ?thesis by simp
  qed
  show ?thesis unfolding py_strip_def 1 2 ..
qed

lemma py_strip_ends:
  assumes "py_strip s \<noteq> []"
  shows "\<not> py_isspace (hd (py_strip s))" "\<not> py_isspace (last (py_strip s))"
proof -
  let ?t = "dropWhile py_isspace s"
  let ?u = "dropWhile py_isspace (rev ?t)"
  from assms have u: "?u \<noteq> []" by (simp add: py_strip_def)
  then have hu: "\<not> py_isspace (hd ?u)" by (rule hd_dropWhile)
  then show "\<not> py_isspace (last (py_strip s))"
    using u by (simp add: py_strip_def last_rev)
  have t: "?t \<noteq> []" using u by (cases "?t = []") simp_all
  then have ht: "\<not> py_isspace (hd ?t)" by (rule hd_dropWhile)
  have "last (rev ?t) = hd ?t" using t by (simp add: last_rev)
  moreover have "last ?u = last (rev ?t)"
    using u by (metis dropWhile_eq_Nil_conv last_appendR takeWhile_dropWhile_id)
  moreover have "hd (rev ?u) = last ?u" using u by (simp add: hd_rev)
  ultimately have "hd (rev ?u) = hd ?t" by simp
  with ht show "\<not> py_isspace (hd (py_strip s))" by (simp add: py_strip_def)
qed

lemma py_lower_idem: "py_lower (py_lower s) = py_lower s"
proof -
  have "py_lower_char (py_lower_char c) = py_lower_char c" for c
  proof (cases "(65 \<le> (of_char c :: nat) \<and> (of_char c :: nat) \<le> 90)
      \<or> (192 \<le> (of_char c :: nat) \<and> (of_char c :: nat) \<le> 222 \<and> (of_char c :: nat) \<noteq> 215)")
    case True
    then have "(of_char (char_of (of_char c + 32 :: nat)) :: nat) = of_char c + 32"
      by (auto simp: of_char_of)
    with True show ?thesis by (auto simp: py_lower_char_def Let_def)
  next
    case False
    then show ?thesis by (auto simp: py_lower_char_def Let_def)
  qed
  then show ?thesis by (simp add: py_lower_def)
qed

text \<open>
  \<open>py_strip\<close> and \<open>py_lower\<close> against the specification of the route rule: the result of
  \<open>py_strip\<close> is the one trimmed form of a string, and two strings have the same
  \<open>py_lower\<close> exactly when they are equal ignoring case.
\<close>

lemma py_isspace_iff: "py_isspace c \<longleftrightarrow> is_whitespace c"
  by (auto simp: py_isspace_def is_whitespace_def whitespace_code_points_def Let_def)

lemma upper_case_iff:
  "(k::nat) \<in> set upper_case_code_points \<longleftrightarrow>
     (65 \<le> k \<and> k \<le> 90) \<or> (192 \<le> k \<and> k \<le> 222 \<and> k \<noteq> 215)"
  unfolding upper_case_code_points_def set_append set_upt Un_iff atLeastLessThan_iff by arith

lemma py_strip_decompose:
  "\<exists>l r. s = l @ py_strip s @ r \<and> list_all py_isspace l \<and> list_all py_isspace r"
proof -
  let ?t = "dropWhile py_isspace s"
  have 1: "s = takeWhile py_isspace s @ ?t" by simp
  have 2: "?t = py_strip s @ rev (takeWhile py_isspace (rev ?t))"
    by (simp only: py_strip_def rev_append[symmetric] takeWhile_dropWhile_id rev_rev_ident)
  have "s = takeWhile py_isspace s @ py_strip s @ rev (takeWhile py_isspace (rev ?t))"
    using 1 2 by metis
  moreover have "list_all py_isspace (takeWhile py_isspace s)"
    by (auto simp: list_all_iff dest: set_takeWhileD)
  moreover have "list_all py_isspace (rev (takeWhile py_isspace (rev ?t)))"
    by (auto simp: list_all_iff dest: set_takeWhileD)
  ultimately show ?thesis by blast
qed

lemma py_strip_fixed:
  assumes "t = [] \<or> (\<not> py_isspace (hd t) \<and> \<not> py_isspace (last t))"
  shows "py_strip t = t"
proof (cases "t = []")
  case True
  then show ?thesis by (simp add: py_strip_def)
next
  case False
  with assms have h: "\<not> py_isspace (hd t)" and l: "\<not> py_isspace (last t)" by auto
  from False h have 1: "dropWhile py_isspace t = t" by (cases t) auto
  from False l have "\<not> py_isspace (hd (rev t))" by (simp add: hd_rev)
  with False have 2: "dropWhile py_isspace (rev t) = rev t" by (cases "rev t") auto
  show ?thesis by (simp add: py_strip_def 1 2)
qed

lemma trimmed_form_iff: "trimmed_form s t \<longleftrightarrow> t = py_strip s"
proof
  assume t: "trimmed_form s t"
  then obtain l r where s: "s = l @ t @ r" and l: "list_all py_isspace l" and r: "list_all py_isspace r"
    unfolding trimmed_form_def py_isspace_iff by blast
  from t have "t = [] \<or> (\<not> py_isspace (hd t) \<and> \<not> py_isspace (last t))"
    unfolding trimmed_form_def py_isspace_iff by blast
  then have "py_strip t = t" by (rule py_strip_fixed)
  moreover have "py_strip (l @ t @ r) = py_strip t"
    by (rule py_strip_surrounding) (use l r in \<open>auto simp: list_all_iff\<close>)
  ultimately show "t = py_strip s" using s by simp
next
  assume t: "t = py_strip s"
  have "py_strip s = [] \<or> (\<not> py_isspace (hd (py_strip s)) \<and> \<not> py_isspace (last (py_strip s)))"
    using py_strip_ends[of s] by blast
  then show "trimmed_form s t"
    unfolding trimmed_form_def t using py_strip_decompose[of s]
    by (simp add: py_isspace_iff[abs_def])
qed

lemma py_lower_char_eq_iff: "py_lower_char c = py_lower_char d \<longleftrightarrow> same_letter c d"
proof -
  have up: "((of_char x :: nat) + 32) mod 256 = of_char x + 32"
    if "(of_char x :: nat) \<in> set upper_case_code_points" for x
    using that by (auto simp: upper_case_iff)
  have notup: "((of_char x :: nat) + 32) \<notin> set upper_case_code_points"
    if "(of_char x :: nat) \<in> set upper_case_code_points" for x
    using that by (auto simp: upper_case_iff)
  have lc: "py_lower_char x = (if (of_char x :: nat) \<in> set upper_case_code_points
      then char_of (of_char x + 32 :: nat) else x)" for x
    by (simp add: py_lower_char_def Let_def upper_case_iff)
  have eqI: "x = y" if "(of_char x :: nat) = of_char y" for x y :: char
    using that by (rule of_char_eqI)
  show ?thesis
  proof (cases "(of_char c :: nat) \<in> set upper_case_code_points";
         cases "(of_char d :: nat) \<in> set upper_case_code_points")
    assume c: "(of_char c :: nat) \<in> set upper_case_code_points"
      and d: "(of_char d :: nat) \<in> set upper_case_code_points"
    have "py_lower_char c = py_lower_char d \<longleftrightarrow> c = d"
    proof
      assume "py_lower_char c = py_lower_char d"
      then have "(of_char (py_lower_char c) :: nat) = of_char (py_lower_char d)" by simp
      then have "(of_char c :: nat) = of_char d" using c d by (simp add: lc up)
      then show "c = d" by (rule eqI)
    qed simp
    moreover have "(of_char d :: nat) \<noteq> of_char c + 32" using notup[OF c] d by metis
    moreover have "(of_char c :: nat) \<noteq> of_char d + 32" using notup[OF d] c by metis
    ultimately have "py_lower_char c = py_lower_char d \<longleftrightarrow> c = d"
      and "same_letter c d \<longleftrightarrow> c = d"
      by (simp_all add: same_letter_def)
    then show ?thesis by simp
  next
    assume c: "(of_char c :: nat) \<in> set upper_case_code_points"
      and d: "(of_char d :: nat) \<notin> set upper_case_code_points"
    have "py_lower_char c = py_lower_char d \<longleftrightarrow> (of_char d :: nat) = of_char c + 32"
    proof
      assume "py_lower_char c = py_lower_char d"
      then have "(of_char (py_lower_char c) :: nat) = of_char (py_lower_char d)" by simp
      then show "(of_char d :: nat) = of_char c + 32" using c d by (simp add: lc up)
    next
      assume "(of_char d :: nat) = of_char c + 32"
      then have "(of_char (py_lower_char c) :: nat) = of_char (py_lower_char d)"
        using c d by (simp add: lc up)
      then show "py_lower_char c = py_lower_char d" by (rule eqI)
    qed
    moreover have "same_letter c d \<longleftrightarrow> (of_char d :: nat) = of_char c + 32"
      using c d by (auto simp: same_letter_def)
    ultimately show ?thesis by simp
  next
    assume c: "(of_char c :: nat) \<notin> set upper_case_code_points"
      and d: "(of_char d :: nat) \<in> set upper_case_code_points"
    have "py_lower_char c = py_lower_char d \<longleftrightarrow> (of_char c :: nat) = of_char d + 32"
    proof
      assume "py_lower_char c = py_lower_char d"
      then have "(of_char (py_lower_char c) :: nat) = of_char (py_lower_char d)" by simp
      then show "(of_char c :: nat) = of_char d + 32" using c d by (simp add: lc up)
    next
      assume "(of_char c :: nat) = of_char d + 32"
      then have "(of_char (py_lower_char c) :: nat) = of_char (py_lower_char d)"
        using c d by (simp add: lc up)
      then show "py_lower_char c = py_lower_char d" by (rule eqI)
    qed
    moreover have "same_letter c d \<longleftrightarrow> (of_char c :: nat) = of_char d + 32"
      using c d by (auto simp: same_letter_def)
    ultimately show ?thesis by simp
  next
    assume c: "(of_char c :: nat) \<notin> set upper_case_code_points"
      and d: "(of_char d :: nat) \<notin> set upper_case_code_points"
    then show ?thesis by (auto simp: lc same_letter_def)
  qed
qed

lemma py_lower_eq_iff: "py_lower s = py_lower t \<longleftrightarrow> equal_ignoring_case s t"
  unfolding py_lower_def equal_ignoring_case_def
proof (induction s arbitrary: t)
  case Nil
  show ?case by auto
next
  case (Cons c s)
  show ?case by (cases t) (simp_all add: py_lower_char_eq_iff Cons.IH)
qed

lemma same_place_iff: "same_place s t \<longleftrightarrow> py_lower (py_strip s) = py_lower (py_strip t)"
  by (simp add: same_place_def trimmed_form_iff py_lower_eq_iff)

lemma same_place_folded_iff:
  "same_place_folded s t \<longleftrightarrow> case_fold (py_strip s) = case_fold (py_strip t)"
  by (simp add: same_place_folded_def trimmed_form_iff)

section \<open>The compatibility masks\<close>

lemma bit_or_exp: "bit ((v::int) OR 2 ^ k) b = (bit v b \<or> b = k)"
  by (auto simp: bit_or_iff bit_exp_iff)

lemma length_set_pair [simp]: "length (set_pair i j m) = length m"
  by (simp add: set_pair_def Let_def)

lemma bit_set_pair:
  assumes "i < length m" "j < length m" "i \<noteq> j" "a < length m"
  shows "bit (set_pair i j m ! a) b = (bit (m ! a) b \<or> (a = i \<and> b = j) \<or> (a = j \<and> b = i))"
  using assms by (auto simp: set_pair_def Let_def nth_list_update bit_or_exp)

lemma build_row_inner:
  assumes sym: "\<And>a b. R a b = R b a"
    and R: "\<And>a b. a < length orders \<Longrightarrow> b < length orders \<Longrightarrow> R a b = can_combine (orders ! a) (orders ! b)"
    and i: "i < length orders" and len: "length m0 = length orders"
    and inv0: "row_inv R i (i + 1) m0"
    and l: "i + 1 \<le> l" "l \<le> length orders"
  shows "length (fold (\<lambda>j m. if can_combine (orders ! i) (orders ! j) then set_pair i j m else m)
          [i + 1 ..< l] m0) = length orders \<and>
      row_inv R i l (fold (\<lambda>j m. if can_combine (orders ! i) (orders ! j) then set_pair i j m else m)
          [i + 1 ..< l] m0)"
  using l
proof (induction l rule: dec_induct)
  case base
  then show ?case using inv0 len by simp
next
  case (step l)
  let ?f = "\<lambda>j m. if can_combine (orders ! i) (orders ! j) then set_pair i j m else m"
  let ?m = "fold ?f [i + 1 ..< l] m0"
  from step have IH: "length ?m = length orders" "row_inv R i l ?m" by auto
  have eq: "fold ?f [i + 1 ..< Suc l] m0 = ?f l ?m"
    using step.hyps by simp
  have ln: "l < length orders" "i < l" "i \<noteq> l" using step by auto
  show ?case
  proof (cases "can_combine (orders ! i) (orders ! l)")
    case True
    then have Ril: "R i l" "R l i" using R[OF i ln(1)] sym by auto
    have "row_inv R i (Suc l) (set_pair i l ?m)"
      unfolding row_inv_def
    proof (intro allI impI)
      fix a b assume a: "a < length (set_pair i l ?m)"
      then have a': "a < length ?m" by simp
      have "bit (set_pair i l ?m ! a) b = (bit (?m ! a) b \<or> (a = i \<and> b = l) \<or> (a = l \<and> b = i))"
        using bit_set_pair[of i ?m l a b] IH(1) i ln a' by simp
      also have "bit (?m ! a) b = (b < length ?m \<and> ((min a b < i \<and> (a = b \<or> R a b)) \<or> (a = i \<and> b = i)
            \<or> (min a b = i \<and> a \<noteq> b \<and> max a b < l \<and> R a b)))"
        using IH(2) a' unfolding row_inv_def by blast
      finally show "bit (set_pair i l ?m ! a) b \<longleftrightarrow>
        (b < length (set_pair i l ?m) \<and> ((min a b < i \<and> (a = b \<or> R a b)) \<or> (a = i \<and> b = i)
            \<or> (min a b = i \<and> a \<noteq> b \<and> max a b < Suc l \<and> R a b)))"
        using Ril ln i IH(1) a' by (auto simp: min_def max_def less_Suc_eq split: if_splits)
    qed
    with True eq IH(1) show ?thesis by simp
  next
    case False
    then have Ril: "\<not> R i l" "\<not> R l i" using R[OF i ln(1)] sym by auto
    have "row_inv R i (Suc l) ?m"
      unfolding row_inv_def
    proof (intro allI impI)
      fix a b assume a': "a < length ?m"
      have "bit (?m ! a) b = (b < length ?m \<and> ((min a b < i \<and> (a = b \<or> R a b)) \<or> (a = i \<and> b = i)
            \<or> (min a b = i \<and> a \<noteq> b \<and> max a b < l \<and> R a b)))"
        using IH(2) a' unfolding row_inv_def by blast
      then show "bit (?m ! a) b \<longleftrightarrow>
        (b < length ?m \<and> ((min a b < i \<and> (a = b \<or> R a b)) \<or> (a = i \<and> b = i)
            \<or> (min a b = i \<and> a \<noteq> b \<and> max a b < Suc l \<and> R a b)))"
        using Ril ln i IH(1) a' by (auto simp: min_def max_def less_Suc_eq split: if_splits)
    qed
    with False eq IH(1) show ?thesis by simp
  qed
qed

lemma build_row_step:
  assumes sym: "\<And>a b. R a b = R b a"
    and R: "\<And>a b. a < length orders \<Longrightarrow> b < length orders \<Longrightarrow> R a b = can_combine (orders ! a) (orders ! b)"
    and i: "i < length orders" and len: "length m = length orders"
    and inv: "outer_inv R i m"
  shows "length (build_row orders i m) = length orders \<and> outer_inv R (Suc i) (build_row orders i m)"
proof -
  let ?m0 = "m[i := (m ! i) OR push_bit i 1]"
  have len0: "length ?m0 = length orders" using len by simp
  have inv0: "row_inv R i (i + 1) ?m0"
    unfolding row_inv_def
  proof (intro allI impI)
    fix a b assume "a < length ?m0"
    then have a: "a < length m" by simp
    have "bit (m ! a) b \<longleftrightarrow> (b < length m \<and> min a b < i \<and> (a = b \<or> R a b))"
      using inv a unfolding outer_inv_def by blast
    then show "bit (?m0 ! a) b \<longleftrightarrow>
        (b < length ?m0 \<and> ((min a b < i \<and> (a = b \<or> R a b)) \<or> (a = i \<and> b = i)
            \<or> (min a b = i \<and> a \<noteq> b \<and> max a b < i + 1 \<and> R a b)))"
      using a i len by (auto simp: nth_list_update bit_or_exp min_def max_def split: if_splits)
  qed
  have fin: "length (build_row orders i m) = length orders \<and> row_inv R i (length orders) (build_row orders i m)"
    unfolding build_row_def
    by (rule build_row_inner[OF sym R i len0 inv0]) (use i in auto)
  have "outer_inv R (Suc i) (build_row orders i m)"
    unfolding outer_inv_def
  proof (intro allI impI)
    fix a b assume a: "a < length (build_row orders i m)"
    have "bit (build_row orders i m ! a) b \<longleftrightarrow>
        (b < length (build_row orders i m) \<and> ((min a b < i \<and> (a = b \<or> R a b)) \<or> (a = i \<and> b = i)
            \<or> (min a b = i \<and> a \<noteq> b \<and> max a b < length orders \<and> R a b)))"
      using fin a unfolding row_inv_def by blast
    then show "bit (build_row orders i m ! a) b \<longleftrightarrow>
       (b < length (build_row orders i m) \<and> min a b < Suc i \<and> (a = b \<or> R a b))"
      using a fin by (auto simp: min_def max_def less_Suc_eq split: if_splits)
  qed
  with fin show ?thesis by simp
qed

lemma build_outer:
  assumes sym: "\<And>a b. R a b = R b a"
    and R: "\<And>a b. a < length orders \<Longrightarrow> b < length orders \<Longrightarrow> R a b = can_combine (orders ! a) (orders ! b)"
    and k: "k \<le> length orders"
  shows "length (fold (build_row orders) [0 ..< k] (replicate (length orders) 0)) = length orders
      \<and> outer_inv R k (fold (build_row orders) [0 ..< k] (replicate (length orders) 0))"
  using k
proof (induction k)
  case 0
  show ?case by (simp add: outer_inv_def)
next
  case (Suc k)
  then have IH: "length (fold (build_row orders) [0 ..< k] (replicate (length orders) 0)) = length orders"
     "outer_inv R k (fold (build_row orders) [0 ..< k] (replicate (length orders) 0))" by auto
  from Suc.prems have k: "k < length orders" by simp
  show ?case using build_row_step[OF sym R k IH] by simp
qed

lemma length_build_compatibility_masks:
  "length (build_compatibility_masks orders) = length orders"
  unfolding build_compatibility_masks_def
  using build_outer[of "\<lambda>a b. can_combine (orders ! a) (orders ! b)" orders "length orders"]
  by (simp add: can_combine_sym)

lemma bit_build_compatibility_masks:
  assumes "i < length orders"
  shows "bit (build_compatibility_masks orders ! i) j \<longleftrightarrow>
           j < length orders \<and> (i = j \<or> can_combine (orders ! i) (orders ! j))"
proof -
  let ?R = "\<lambda>a b. can_combine (orders ! a) (orders ! b)"
  have "length (build_compatibility_masks orders) = length orders \<and> outer_inv ?R (length orders) (build_compatibility_masks orders)"
    unfolding build_compatibility_masks_def
    by (rule build_outer) (auto simp: can_combine_sym)
  then show ?thesis using assms unfolding outer_inv_def by (auto simp: min_def)
qed

section \<open>The search order and the bound table\<close>

lemma set_order_by_value_of: "set (order_by_value_of ps) = {..< length ps}"
  by (auto simp: order_by_value_of_def py_sorted_reverse_def)

lemma length_order_by_value_of: "length (order_by_value_of ps) = length ps"
  by (simp add: order_by_value_of_def py_sorted_reverse_def)

lemma distinct_order_by_value_of: "distinct (order_by_value_of ps)"
  by (simp add: order_by_value_of_def py_sorted_reverse_def)

lemma order_by_value_of_descending:
  assumes "a \<le> b" "b < length ps"
  shows "ps ! (order_by_value_of ps ! b) \<le> ps ! (order_by_value_of ps ! a)"
proof -
  let ?obv = "order_by_value_of ps"
  have "sorted (map (\<lambda>i. - (ps ! i)) ?obv)"
    by (simp add: order_by_value_of_def py_sorted_reverse_def)
  moreover note assms(1)
  moreover have "b < length (map (\<lambda>i. - (ps ! i)) ?obv)"
    using assms by (simp add: length_order_by_value_of)
  ultimately have "map (\<lambda>i. - (ps ! i)) ?obv ! a \<le> map (\<lambda>i. - (ps ! i)) ?obv ! b"
    by (rule sorted_nth_mono)
  then show ?thesis using assms by (simp add: length_order_by_value_of)
qed

lemma sorted_wrt_filter_nth:
  assumes "sorted_wrt R (filter P xs)" "a < b" "b < length xs" "P (xs ! a)" "P (xs ! b)"
  shows "R (xs ! a) (xs ! b)"
proof -
  have xs: "xs = take b xs @ xs ! b # drop (Suc b) xs"
    using assms(3) by (simp add: id_take_nth_drop)
  have "xs ! a \<in> set (filter P (take b xs))"
    using assms by (auto simp: in_set_conv_nth intro!: exI[of _ a])
  moreover have "sorted_wrt R (filter P (take b xs) @ xs ! b # filter P (drop (Suc b) xs))"
    using assms(1,5) by (subst (asm) xs) simp
  ultimately show ?thesis by (auto simp: sorted_wrt_append)
qed

lemma order_by_value_of_stable:
  assumes "a < b" "b < length ps"
    and "ps ! (order_by_value_of ps ! a) = ps ! (order_by_value_of ps ! b)"
  shows "order_by_value_of ps ! a < order_by_value_of ps ! b"
proof -
  let ?obv = "order_by_value_of ps"
  let ?k = "- (ps ! (?obv ! b))"
  have "filter (\<lambda>y. - (ps ! y) = ?k) ?obv = filter (\<lambda>y. - (ps ! y) = ?k) [0 ..< length ps]"
    unfolding order_by_value_of_def py_sorted_reverse_def by (rule sort_key_stable)
  moreover have "sorted_wrt (<) (filter (\<lambda>y. - (ps ! y) = ?k) [0 ..< length ps])"
    by (rule sorted_wrt_filter) simp
  ultimately have "sorted_wrt (<) (filter (\<lambda>y. - (ps ! y) = ?k) ?obv)" by simp
  then show ?thesis
    by (rule sorted_wrt_filter_nth) (use assms in \<open>auto simp: length_order_by_value_of\<close>)
qed

lemma suffix_fold:
  assumes "k \<le> n" "length obv = n"
  shows "length (fold (\<lambda>i s. s[i := s ! (i + 1) + (ps :: int list) ! (obv ! i)]) (rev [k ..< n]) (replicate (n + 1) 0)) = n + 1
    \<and> (\<forall>i. i \<le> n \<longrightarrow> fold (\<lambda>i s. s[i := s ! (i + 1) + ps ! (obv ! i)]) (rev [k ..< n]) (replicate (n + 1) 0) ! i
          = (if k \<le> i then sum_list (map (\<lambda>j. ps ! j) (drop i obv)) else 0))"
  using assms(1)
proof (induction k rule: inc_induct)
  case base
  show ?case using assms(2) by (auto simp: nth_Cons')
next
  case (step k)
  let ?f = "\<lambda>i s. s[i := s ! (i + 1) + ps ! (obv ! i)]"
  let ?s = "fold ?f (rev [Suc k ..< n]) (replicate (n + 1) 0)"
  have eq: "fold ?f (rev [k ..< n]) (replicate (n + 1) 0) = ?f k ?s"
    using step.hyps by (simp add: upt_conv_Cons)
  have IH1: "length ?s = n + 1" and IH2: "\<And>i. i \<le> n \<Longrightarrow> ?s ! i = (if Suc k \<le> i then sum_list (map (\<lambda>j. ps ! j) (drop i obv)) else 0)"
    using step.IH by auto
  have dr: "drop k obv = obv ! k # drop (Suc k) obv"
    using step.hyps assms(2) by (simp add: Cons_nth_drop_Suc)
  show ?case
    unfolding eq using IH1 IH2 step.hyps dr by (auto simp: nth_list_update add.commute)
qed

lemma length_suffix_payout_of:
  "length obv = length ps \<Longrightarrow> length (suffix_payout_of ps obv) = length ps + 1"
  unfolding suffix_payout_of_def using suffix_fold[of 0 "length ps" obv ps] by simp

lemma suffix_payout_of_nth:
  "length obv = length ps \<Longrightarrow> i \<le> length ps \<Longrightarrow>
     suffix_payout_of ps obv ! i = sum_list (map (\<lambda>j. ps ! j) (drop i obv))"
  unfolding suffix_payout_of_def using suffix_fold[of 0 "length ps" obv ps] by simp

lemma sum_list_subseq_le:
  fixes f :: "'a \<Rightarrow> int"
  assumes "subseq js xs" "\<And>x. x \<in> set xs \<Longrightarrow> 0 \<le> f x"
  shows "sum_list (map f js) \<le> sum_list (map f xs)"
  using assms
proof (induction rule: list_emb.induct)
  case (list_emb_Nil ys)
  then show ?case by (auto intro!: sum_list_nonneg)
next
  case (list_emb_Cons xs ys y)
  then have "sum_list (map f xs) \<le> sum_list (map f ys)" and "0 \<le> f y" by simp_all
  then show ?case by simp
next
  case (list_emb_Cons2 x y xs ys)
  then show ?case by simp
qed

section \<open>Invariants of the search\<close>

lemma search_mono: "fst best \<le> fst (search E idx sel cp cw cv valid best)"
proof (induction E idx sel cp cw cv valid best rule: search.induct)
  case (1 E idx sel cp cw cv valid best)
  define best1 where "best1 = (if fst best < cp then (cp, selection_of E idx sel) else best)"
  define oi where "oi = order_by_value E ! idx"
  define best2 where "best2 =
     (if valid AND push_bit oi 1 \<noteq> 0 \<and> cw + weights E ! oi \<le> max_weight E
          \<and> cv + volumes E ! oi \<le> max_volume E
      then search E (idx + 1) (sel OR push_bit idx 1) (cp + payouts E ! oi)
             (cw + weights E ! oi) (cv + volumes E ! oi) (valid AND compat_masks E ! oi) best1
      else best1)"
  have b1: "fst best \<le> fst best1" by (simp add: best1_def)
  show ?case
  proof (cases "env_n E \<le> idx \<or> cp + suffix_payout E ! idx \<le> fst best1")
    case True
    then have "search E idx sel cp cw cv valid best = best1"
      by (auto simp: search.simps[of E idx sel cp cw cv valid best] best1_def Let_def)
    with b1 show ?thesis by simp
  next
    case False
    then have res: "search E idx sel cp cw cv valid best = search E (idx + 1) sel cp cw cv valid best2"
      by (simp add: search.simps[of E idx sel cp cw cv valid best] best1_def best2_def oi_def Let_def)
    have b2: "fst best1 \<le> fst best2"
      unfolding best2_def using "1.IH"(1)[OF best1_def _ _ oi_def _ refl refl _ refl] False
      by auto
    have "fst best2 \<le> fst (search E (idx + 1) sel cp cw cv valid best2)"
      using "1.IH"(2)[OF best1_def _ _ oi_def, of best2] False
      by (auto simp: best2_def Let_def)
    with b1 b2 res show ?thesis by simp
  qed
qed

lemma mask_test_iff [simp]: "((v::int) AND 2 ^ k \<noteq> 0) = bit v k"
  by (simp add: and_exp_eq_0_iff_not_bit)

lemma selection_of_take:
  "selection_of E (Suc idx) (sel OR 2 ^ idx) = selection_of E idx sel @ [order_by_value E ! idx]"
proof -
  have "filter (\<lambda>i. bit (sel OR 2 ^ idx) i) [0 ..< idx] = filter (\<lambda>i. bit sel i) [0 ..< idx]"
    by (rule filter_cong) (auto simp: bit_or_exp)
  then show ?thesis by (simp add: selection_of_def bit_or_exp)
qed

lemma selection_of_skip:
  "\<not> bit sel idx \<Longrightarrow> selection_of E (Suc idx) sel = selection_of E idx sel"
  by (simp add: selection_of_def)

lemma search_result:
  assumes "visits E idx sel cp cw cv valid"
  shows "search E idx sel cp cw cv valid best = best \<or> from_visit E (search E idx sel cp cw cv valid best)"
  using assms
proof (induction E idx sel cp cw cv valid best rule: search.induct)
  case (1 E idx sel cp cw cv valid best)
  note vis = "1.prems"
  define best1 where "best1 = (if fst best < cp then (cp, selection_of E idx sel) else best)"
  define oi where "oi = order_by_value E ! idx"
  define best2 where "best2 =
     (if valid AND push_bit oi 1 \<noteq> 0 \<and> cw + weights E ! oi \<le> max_weight E
          \<and> cv + volumes E ! oi \<le> max_volume E
      then search E (idx + 1) (sel OR push_bit idx 1) (cp + payouts E ! oi)
             (cw + weights E ! oi) (cv + volumes E ! oi) (valid AND compat_masks E ! oi) best1
      else best1)"
  have "from_visit E (cp, selection_of E idx sel)"
    unfolding from_visit_def using vis by blast
  then have b1: "best1 = best \<or> from_visit E best1"
    unfolding best1_def by simp
  have b1': "cp \<le> fst best1" by (simp add: best1_def)
  show ?case
  proof (cases "env_n E \<le> idx \<or> cp + suffix_payout E ! idx \<le> fst best1")
    case True
    then have "search E idx sel cp cw cv valid best = best1"
      by (auto simp: search.simps[of E idx sel cp cw cv valid best] best1_def Let_def)
    with b1 show ?thesis by simp
  next
    case False
    then have idx: "idx < env_n E" and pos: "0 < suffix_payout E ! idx" using b1' by auto
    from False have res: "search E idx sel cp cw cv valid best = search E (idx + 1) sel cp cw cv valid best2"
      by (simp add: search.simps[of E idx sel cp cw cv valid best] best1_def best2_def oi_def Let_def)
    have b2: "best2 = best1 \<or> from_visit E best2"
    proof (cases "valid AND push_bit oi 1 \<noteq> 0 \<and> cw + weights E ! oi \<le> max_weight E
          \<and> cv + volumes E ! oi \<le> max_volume E")
      case True
      then have "visits E (idx + 1) (sel OR push_bit idx 1) (cp + payouts E ! oi)
             (cw + weights E ! oi) (cv + volumes E ! oi) (valid AND compat_masks E ! oi)"
        using visits.take_order[OF vis idx pos oi_def] by blast
      then show ?thesis
        unfolding best2_def using "1.IH"(1)[OF best1_def _ _ oi_def _ refl refl _ refl] False True
        by auto
    next
      case False
      show ?thesis by (simp only: best2_def False if_False simp_thms)
    qed
    have "visits E (idx + 1) sel cp cw cv valid"
      using visits.skip_order[OF vis idx pos] .
    then have "search E (idx + 1) sel cp cw cv valid best2 = best2
        \<or> from_visit E (search E (idx + 1) sel cp cw cv valid best2)"
      using "1.IH"(2)[OF best1_def _ _ oi_def, of best2] False
      by (auto simp: best2_def Let_def)
    with b1 b2 res show ?thesis by auto
  qed
qed

lemma visits_bounds:
  "visits E idx sel cp cw cv valid \<Longrightarrow> idx \<le> env_n E \<and> (\<forall>i. bit sel i \<longrightarrow> i < idx)"
  by (induction rule: visits.induct) (auto simp: bit_or_exp less_Suc_eq)

lemma visits_sums:
  "visits E idx sel cp cw cv valid \<Longrightarrow>
     cp = sum_list (map (\<lambda>i. payouts E ! i) (selection_of E idx sel))
   \<and> cw = sum_list (map (\<lambda>i. weights E ! i) (selection_of E idx sel))
   \<and> cv = sum_list (map (\<lambda>i. volumes E ! i) (selection_of E idx sel))"
proof (induction rule: visits.induct)
  case root
  show ?case by (simp add: selection_of_def)
next
  case (take_order idx sel cp cw cv valid oi)
  then show ?case by (simp add: selection_of_take)
next
  case (skip_order idx sel cp cw cv valid)
  from visits_bounds[OF skip_order(1)] have "\<not> bit sel idx" by auto
  with skip_order show ?case by (simp add: selection_of_skip)
qed

lemma visits_weight:
  "visits E idx sel cp cw cv valid \<Longrightarrow> 0 \<le> max_weight E \<Longrightarrow> cw \<le> max_weight E"
  by (induction rule: visits.induct) auto

lemma visits_volume:
  "visits E idx sel cp cw cv valid \<Longrightarrow> 0 \<le> max_volume E \<Longrightarrow> cv \<le> max_volume E"
  by (induction rule: visits.induct) auto

lemma visits_valid:
  "visits E idx sel cp cw cv valid \<Longrightarrow>
     bit valid j \<longleftrightarrow> j < env_n E \<and> (\<forall>i \<in> set (selection_of E idx sel). bit (compat_masks E ! i) j)"
proof (induction rule: visits.induct)
  case root
  have "push_bit (env_n E) 1 - 1 = (mask (env_n E) :: int)"
    by (simp add: mask_eq_exp_minus_1)
  then show ?case by (simp add: selection_of_def bit_mask_iff)
next
  case (take_order idx sel cp cw cv valid oi)
  then show ?case by (auto simp: selection_of_take bit_and_iff simp del: mask_test_iff)
next
  case (skip_order idx sel cp cw cv valid)
  from visits_bounds[OF skip_order(1)] have "\<not> bit sel idx" by auto
  with skip_order show ?case by (simp add: selection_of_skip)
qed

lemma set_selection_of:
  "set (selection_of E idx sel) = {order_by_value E ! i | i. i < idx \<and> bit sel i}"
  by (auto simp: selection_of_def)

lemma distinct_selection_of:
  assumes "distinct (order_by_value E)" "idx \<le> length (order_by_value E)"
  shows "distinct (selection_of E idx sel)"
  unfolding selection_of_def
  by (rule distinct_map[THEN iffD2]) (use assms in \<open>auto simp: inj_on_def nth_eq_iff_index_eq\<close>)

lemma selection_of_subset:
  assumes "env_wf E" "idx \<le> env_n E"
  shows "set (selection_of E idx sel) \<subseteq> set (take idx (order_by_value E))"
    and "set (selection_of E idx sel) \<subseteq> {..< env_n E}"
proof -
  show 1: "set (selection_of E idx sel) \<subseteq> set (take idx (order_by_value E))"
    using assms by (auto simp: set_selection_of env_wf_def in_set_conv_nth intro!: exI)
  have "set (take idx (order_by_value E)) \<subseteq> set (order_by_value E)" by (rule set_take_subset)
  with 1 assms(1) show "set (selection_of E idx sel) \<subseteq> {..< env_n E}"
    unfolding env_wf_def by blast
qed

lemma visits_pairwise:
  assumes wf: "env_wf E"
  shows "visits E idx sel cp cw cv valid \<Longrightarrow>
     (\<forall>a \<in> set (selection_of E idx sel). \<forall>b \<in> set (selection_of E idx sel).
         a \<noteq> b \<longrightarrow> bit (compat_masks E ! a) b)"
proof (induction rule: visits.induct)
  case root
  show ?case by (simp add: selection_of_def)
next
  case (take_order idx sel cp cw cv valid oi)
  have idx: "idx \<le> env_n E" using take_order by simp
  have oin: "oi < env_n E"
    using wf take_order(2,4) unfolding env_wf_def by (metis lessThan_iff nth_mem)
  have old: "\<And>a. a \<in> set (selection_of E idx sel) \<Longrightarrow> a < env_n E \<and> bit (compat_masks E ! a) oi"
    using visits_valid[OF take_order(1), of oi] take_order(5) selection_of_subset(2)[OF wf idx, of sel]
    by auto
  have csym: "\<And>i j. i < env_n E \<Longrightarrow> j < env_n E \<Longrightarrow> bit (compat_masks E ! i) j = bit (compat_masks E ! j) i"
    using wf unfolding env_wf_def by simp
  have sym: "\<And>a. a \<in> set (selection_of E idx sel) \<Longrightarrow> bit (compat_masks E ! oi) a"
    using old oin csym by blast
  show ?case
    using take_order.IH old sym take_order(4) by (auto simp: selection_of_take)
next
  case (skip_order idx sel cp cw cv valid)
  from visits_bounds[OF skip_order(1)] have "\<not> bit sel idx" by auto
  with skip_order show ?case by (simp add: selection_of_skip)
qed

lemma visits_positive:
  assumes wf: "env_wf E"
  shows "visits E idx sel cp cw cv valid \<Longrightarrow>
     (\<forall>i \<in> set (selection_of E idx sel). 0 < payouts E ! i)"
proof (induction rule: visits.induct)
  case root
  show ?case by (simp add: selection_of_def)
next
  case (take_order idx sel cp cw cv valid oi)
  let ?obv = "order_by_value E"
  have suf: "suffix_payout E ! idx = sum_list (map (\<lambda>j. payouts E ! j) (drop idx ?obv))"
    using wf take_order(2) unfolding env_wf_def by simp
  have "0 < payouts E ! oi"
  proof (rule ccontr)
    assume "\<not> 0 < payouts E ! oi"
    then have le: "payouts E ! (?obv ! idx) \<le> 0" using take_order(4) by simp
    have "\<And>x. x \<in> set (drop idx ?obv) \<Longrightarrow> payouts E ! x \<le> 0"
    proof -
      fix x assume "x \<in> set (drop idx ?obv)"
      then obtain k where k: "k < length ?obv - idx" "x = ?obv ! (idx + k)"
        by (auto simp: in_set_conv_nth)
      then have "payouts E ! x \<le> payouts E ! (?obv ! idx)"
        using wf unfolding env_wf_def by auto
      with le show "payouts E ! x \<le> 0" by simp
    qed
    then have "sum_list (map (\<lambda>j. payouts E ! j) (drop idx ?obv)) \<le> 0"
      by (intro sum_list_nonpos) auto
    with suf take_order(3) show False by simp
  qed
  with take_order.IH show ?case by (auto simp: selection_of_take take_order(4))
next
  case (skip_order idx sel cp cw cv valid)
  from visits_bounds[OF skip_order(1)] have "\<not> bit sel idx" by auto
  with skip_order show ?case by (simp add: selection_of_skip)
qed

lemma sum_list_distinct_sum:
  "distinct xs \<Longrightarrow> sum_list (map f xs) = (\<Sum>i\<in>set xs. f i)"
  by (simp add: sum_list_distinct_conv_sum_set)

lemma search_covers:
  assumes wf: "env_wf E"
    and nonneg: "\<forall>i < env_n E. 0 \<le> payouts E ! i \<and> 0 \<le> weights E ! i \<and> 0 \<le> volumes E ! i"
    and feas: "feasible_set E S"
    and vis: "visits E idx sel cp cw cv valid"
    and agree: "S \<inter> set (take idx (order_by_value E)) = set (selection_of E idx sel)"
  shows "(\<Sum>i\<in>S. payouts E ! i) \<le> fst (search E idx sel cp cw cv valid best)"
  using wf nonneg feas vis agree
proof (induction E idx sel cp cw cv valid best rule: search.induct)
  case (1 E idx sel cp cw cv valid best)
  note wf = "1.prems"(1) and nonneg = "1.prems"(2) and feas = "1.prems"(3)
    and vis = "1.prems"(4) and agree = "1.prems"(5)
  let ?obv = "order_by_value E"
  let ?sel = "selection_of E idx sel"
  define best1 where "best1 = (if fst best < cp then (cp, selection_of E idx sel) else best)"
  define oi where "oi = order_by_value E ! idx"
  define best2 where "best2 =
     (if valid AND push_bit oi 1 \<noteq> 0 \<and> cw + weights E ! oi \<le> max_weight E
          \<and> cv + volumes E ! oi \<le> max_volume E
      then search E (idx + 1) (sel OR push_bit idx 1) (cp + payouts E ! oi)
             (cw + weights E ! oi) (cv + volumes E ! oi) (valid AND compat_masks E ! oi) best1
      else best1)"
  have b1': "cp \<le> fst best1" by (simp add: best1_def)
  have idx_le: "idx \<le> env_n E" and nobit: "\<not> bit sel idx"
    using visits_bounds[OF vis] by auto
  have len: "length ?obv = env_n E" and dist: "distinct ?obv" and setobv: "set ?obv = {..< env_n E}"
    using wf unfolding env_wf_def by auto
  have finS: "finite S" and Ssub: "S \<subseteq> {..< env_n E}"
    using feas unfolding feasible_set_def by (auto intro: finite_subset)
  have dsel: "distinct ?sel"
    using distinct_selection_of[OF dist, of idx sel] idx_le len by simp
  have cp: "cp = (\<Sum>i\<in>set ?sel. payouts E ! i)"
    and cw: "cw = (\<Sum>i\<in>set ?sel. weights E ! i)"
    and cv: "cv = (\<Sum>i\<in>set ?sel. volumes E ! i)"
    using visits_sums[OF vis] dsel by (simp_all add: sum_list_distinct_sum)
  have split: "(\<Sum>i\<in>S. payouts E ! i) = cp + (\<Sum>i\<in>S - set (take idx ?obv). payouts E ! i)"
    using sum.Int_Diff[OF finS, of "\<lambda>i. payouts E ! i" "set (take idx ?obv)"] agree cp by simp
  show ?case
  proof (cases "env_n E \<le> idx \<or> cp + suffix_payout E ! idx \<le> fst best1")
    case True
    then have res: "search E idx sel cp cw cv valid best = best1"
      by (auto simp: search.simps[of E idx sel cp cw cv valid best] best1_def Let_def)
    have rest: "S - set (take idx ?obv) \<subseteq> set (drop idx ?obv)"
    proof -
      have "set ?obv = set (take idx ?obv) \<union> set (drop idx ?obv)"
        by (metis append_take_drop_id set_append)
      with Ssub setobv show ?thesis by auto
    qed
    have "(\<Sum>i\<in>S - set (take idx ?obv). payouts E ! i) \<le> (\<Sum>i\<in>set (drop idx ?obv). payouts E ! i)"
    proof (rule sum_mono2)
      show "finite (set (drop idx ?obv))" by simp
      show "S - set (take idx ?obv) \<subseteq> set (drop idx ?obv)" by (rule rest)
      fix b assume "b \<in> set (drop idx ?obv) - (S - set (take idx ?obv))"
      then have "b \<in> set ?obv" by (auto dest: in_set_dropD)
      then show "0 \<le> payouts E ! b" using setobv nonneg by auto
    qed
    also have "\<dots> = sum_list (map (\<lambda>j. payouts E ! j) (drop idx ?obv))"
      using dist by (simp add: sum_list_distinct_sum)
    also have "\<dots> = suffix_payout E ! idx"
      using wf idx_le unfolding env_wf_def by simp
    finally have bound: "(\<Sum>i\<in>S. payouts E ! i) \<le> cp + suffix_payout E ! idx"
      using split by simp
    show ?thesis
    proof (cases "env_n E \<le> idx")
      case True
      then have "drop idx ?obv = []" using len by simp
      then have "suffix_payout E ! idx = 0"
        using wf idx_le unfolding env_wf_def by simp
      with bound b1' res show ?thesis by simp
    next
      case False
      with True bound res show ?thesis by simp
    qed
  next
    case False
    then have idx: "idx < env_n E" and pos: "0 < suffix_payout E ! idx" using b1' by auto
    from False have res: "search E idx sel cp cw cv valid best = search E (idx + 1) sel cp cw cv valid best2"
      by (simp add: search.simps[of E idx sel cp cw cv valid best] best1_def best2_def oi_def Let_def)
    have tk: "take (Suc idx) ?obv = take idx ?obv @ [oi]"
      using idx len by (simp add: take_Suc_conv_app_nth oi_def)
    have oin: "oi < env_n E" using setobv idx len unfolding oi_def by (metis lessThan_iff nth_mem)
    have oi_new: "oi \<notin> set (take idx ?obv)"
      using dist idx len
      by (auto simp: oi_def in_set_conv_nth nth_eq_iff_index_eq)
    have oi_sel: "oi \<notin> set ?sel" using oi_new agree by auto
    show ?thesis
    proof (cases "oi \<in> S")
      case True
      have selS: "set ?sel \<subseteq> S" using agree by auto
      have pw: "\<And>a b. a \<in> S \<Longrightarrow> b \<in> S \<Longrightarrow> a \<noteq> b \<Longrightarrow> bit (compat_masks E ! a) b"
        using feas unfolding feasible_set_def by simp
      have "\<forall>i\<in>set ?sel. bit (compat_masks E ! i) oi"
      proof
        fix i assume i: "i \<in> set ?sel"
        with selS oi_sel have "i \<in> S" "i \<noteq> oi" by auto
        then show "bit (compat_masks E ! i) oi" using True by (intro pw)
      qed
      then have c1: "valid AND push_bit oi 1 \<noteq> 0"
        using visits_valid[OF vis, of oi] oin by simp
      have ins: "insert oi (set ?sel) \<subseteq> S" using True selS by simp
      have "cw + weights E ! oi = (\<Sum>i\<in>insert oi (set ?sel). weights E ! i)"
        using oi_sel cw by simp
      also have "\<dots> \<le> (\<Sum>i\<in>S. weights E ! i)"
        by (rule sum_mono2[OF finS ins]) (use Ssub nonneg in auto)
      finally have c2: "cw + weights E ! oi \<le> max_weight E"
        using feas unfolding feasible_set_def by simp
      have "cv + volumes E ! oi = (\<Sum>i\<in>insert oi (set ?sel). volumes E ! i)"
        using oi_sel cv by simp
      also have "\<dots> \<le> (\<Sum>i\<in>S. volumes E ! i)"
        by (rule sum_mono2[OF finS ins]) (use Ssub nonneg in auto)
      finally have c3: "cv + volumes E ! oi \<le> max_volume E"
        using feas unfolding feasible_set_def by simp
      have vis': "visits E (idx + 1) (sel OR push_bit idx 1) (cp + payouts E ! oi)
             (cw + weights E ! oi) (cv + volumes E ! oi) (valid AND compat_masks E ! oi)"
        using visits.take_order[OF vis idx pos oi_def c1 c2 c3] .
      have agree': "S \<inter> set (take (idx + 1) ?obv) = set (selection_of E (idx + 1) (sel OR push_bit idx 1))"
        using agree True tk by (auto simp: selection_of_take oi_def)
      have b2: "best2 = search E (idx + 1) (sel OR push_bit idx 1) (cp + payouts E ! oi)
             (cw + weights E ! oi) (cv + volumes E ! oi) (valid AND compat_masks E ! oi) best1"
        by (simp only: best2_def c1 c2 c3 simp_thms if_True)
      have "(\<Sum>i\<in>S. payouts E ! i) \<le> fst best2"
        unfolding b2
        using "1.IH"(1)[OF best1_def _ _ oi_def c1 refl refl _ refl wf nonneg feas vis' agree'] False c2 c3
        by auto
      also have "\<dots> \<le> fst (search E (idx + 1) sel cp cw cv valid best2)"
        by (rule search_mono)
      finally show ?thesis using res by simp
    next
      case notin: False
      have vis': "visits E (idx + 1) sel cp cw cv valid"
        using visits.skip_order[OF vis idx pos] .
      have agree': "S \<inter> set (take (idx + 1) ?obv) = set (selection_of E (idx + 1) sel)"
        using agree notin tk nobit by (auto simp: selection_of_skip)
      have "(\<Sum>i\<in>S. payouts E ! i) \<le> fst (search E (idx + 1) sel cp cw cv valid best2)"
        using "1.IH"(2)[OF best1_def _ _ oi_def _ wf nonneg feas vis' agree', of best2] False
        by (auto simp: best2_def Let_def)
      then show ?thesis using res by simp
    qed
  qed
qed

section \<open>The incumbent left by the search\<close>

lemma make_env_simps [simp]:
  "env_n (make_env truck orders) = length orders"
  "compat_masks (make_env truck orders) = build_compatibility_masks orders"
  "payouts (make_env truck orders) = map payout_cents orders"
  "weights (make_env truck orders) = map weight_lbs orders"
  "volumes (make_env truck orders) = map volume_cuft orders"
  "max_weight (make_env truck orders) = max_weight_lbs truck"
  "max_volume (make_env truck orders) = max_volume_cuft truck"
  "order_by_value (make_env truck orders) = order_by_value_of (map payout_cents orders)"
  "suffix_payout (make_env truck orders)
     = suffix_payout_of (map payout_cents orders) (order_by_value_of (map payout_cents orders))"
  by (simp_all add: make_env_def Let_def)

lemma env_wf_make_env: "env_wf (make_env truck orders)"
  unfolding env_wf_def
proof (intro conjI allI impI)
  let ?ps = "map payout_cents orders"
  show "length (order_by_value (make_env truck orders)) = env_n (make_env truck orders)"
    by (simp add: length_order_by_value_of)
  show "distinct (order_by_value (make_env truck orders))"
    by (simp add: distinct_order_by_value_of)
  show "set (order_by_value (make_env truck orders)) = {..< env_n (make_env truck orders)}"
    by (simp add: set_order_by_value_of)
  show "suffix_payout (make_env truck orders) ! i
          = sum_list (map (\<lambda>j. payouts (make_env truck orders) ! j)
                (drop i (order_by_value (make_env truck orders))))"
    if "i \<le> env_n (make_env truck orders)" for i
    using that suffix_payout_of_nth[of "order_by_value_of ?ps" ?ps i]
    by (simp add: length_order_by_value_of)
  show "payouts (make_env truck orders) ! (order_by_value (make_env truck orders) ! b)
          \<le> payouts (make_env truck orders) ! (order_by_value (make_env truck orders) ! a)"
    if "a \<le> b \<and> b < env_n (make_env truck orders)" for a b
    using that order_by_value_of_descending[of a b ?ps] by simp
  show "bit (compat_masks (make_env truck orders) ! i) j
          = bit (compat_masks (make_env truck orders) ! j) i"
    if "i < env_n (make_env truck orders)" "j < env_n (make_env truck orders)" for i j
    using that by (auto simp: bit_build_compatibility_masks can_combine_sym)
qed

lemma run_search_cases:
  "run_search truck orders = (0, []) \<or> from_visit (make_env truck orders) (run_search truck orders)"
  unfolding run_search_def Let_def by (rule search_result) (rule visits.root)

lemma run_search_Nil: "run_search truck [] = (0, [])"
  by (simp add: run_search_def search.simps[of _ 0] Let_def)

lemma optimize_eq:
  "optimize truck orders =
     (map (\<lambda>i. order_id (orders ! i)) (snd (run_search truck orders)),
      fst (run_search truck orders),
      sum_list (map (\<lambda>i. map weight_lbs orders ! i) (snd (run_search truck orders))),
      sum_list (map (\<lambda>i. map volume_cuft orders ! i) (snd (run_search truck orders))))"
  by (cases "orders = []") (simp_all add: optimize_def run_search_Nil Let_def)

text \<open>What holds for the final incumbent, whatever the input.\<close>

lemma run_search_selection:
  "distinct (snd (run_search truck orders))"
  "set (snd (run_search truck orders)) \<subseteq> {..< length orders}"
  "subseq (snd (run_search truck orders)) (order_by_value_of (map payout_cents orders))"
proof -
  let ?E = "make_env truck orders"
  let ?rs = "run_search truck orders"
  have wf: "env_wf ?E" by (rule env_wf_make_env)
  have "distinct (snd ?rs) \<and> set (snd ?rs) \<subseteq> {..< length orders}
         \<and> subseq (snd ?rs) (order_by_value_of (map payout_cents orders))"
    using run_search_cases[of truck orders]
  proof
    assume "?rs = (0, [])"
    then show ?thesis by simp
  next
    assume "from_visit ?E ?rs"
    then obtain idx sel cp cw cv valid where vis: "visits ?E idx sel cp cw cv valid"
      and rs: "?rs = (cp, selection_of ?E idx sel)"
      unfolding from_visit_def by blast
    have idx: "idx \<le> length orders" using visits_bounds[OF vis] by simp
    have d: "distinct (selection_of ?E idx sel)"
      by (rule distinct_selection_of) (use idx in \<open>simp_all add: distinct_order_by_value_of length_order_by_value_of\<close>)
    have s: "set (selection_of ?E idx sel) \<subseteq> {..< length orders}"
      using selection_of_subset(2)[OF wf, of idx sel] idx by simp
    let ?obv = "order_by_value_of (map payout_cents orders)"
    have "subseq (filter (\<lambda>i. sel AND push_bit i 1 \<noteq> 0) [0 ..< idx]) [0 ..< length orders]"
    proof -
      have "subseq (filter (\<lambda>i. sel AND push_bit i 1 \<noteq> 0) [0 ..< idx]) [0 ..< idx]" by simp
      moreover have "subseq [0 ..< idx] [0 ..< length orders]"
        using idx by (metis le_add_diff_inverse prefix_imp_subseq prefixI upt_add_eq_append zero_le)
      ultimately show ?thesis by (rule subseq_order.trans)
    qed
    then have "subseq (map (\<lambda>i. ?obv ! i) (filter (\<lambda>i. sel AND push_bit i 1 \<noteq> 0) [0 ..< idx]))
                 (map (\<lambda>i. ?obv ! i) [0 ..< length orders])"
      by (rule subseq_map)
    moreover have "map (\<lambda>i. ?obv ! i) [0 ..< length orders] = ?obv"
      using map_nth[of ?obv] by (simp add: length_order_by_value_of)
    ultimately have "subseq (selection_of ?E idx sel) ?obv"
      by (simp add: selection_of_def)
    with d s rs show ?thesis by simp
  qed
  then show "distinct (snd ?rs)" "set (snd ?rs) \<subseteq> {..< length orders}"
    "subseq (snd ?rs) (order_by_value_of (map payout_cents orders))" by auto
qed

lemma run_search_sums:
  "fst (run_search truck orders)
     = sum_list (map (\<lambda>i. payout_cents (orders ! i)) (snd (run_search truck orders)))"
proof -
  let ?E = "make_env truck orders"
  let ?rs = "run_search truck orders"
  have "fst ?rs = sum_list (map (\<lambda>i. payouts ?E ! i) (snd ?rs))"
    using run_search_cases[of truck orders]
  proof
    assume "?rs = (0, [])"
    then show ?thesis by simp
  next
    assume "from_visit ?E ?rs"
    then obtain idx sel cp cw cv valid where vis: "visits ?E idx sel cp cw cv valid"
      and rs: "?rs = (cp, selection_of ?E idx sel)"
      unfolding from_visit_def by blast
    from visits_sums[OF vis] rs show ?thesis by simp
  qed
  also have "\<dots> = sum_list (map (\<lambda>i. payout_cents (orders ! i)) (snd ?rs))"
    by (rule arg_cong[where f = sum_list], rule map_cong)
       (use run_search_selection(2)[of truck orders] in auto)
  finally show ?thesis .
qed

lemma run_search_weight:
  assumes "0 \<le> max_weight_lbs truck"
  shows "sum_list (map (\<lambda>i. map weight_lbs orders ! i) (snd (run_search truck orders)))
           \<le> max_weight_lbs truck"
proof -
  let ?E = "make_env truck orders"
  let ?rs = "run_search truck orders"
  show ?thesis
    using run_search_cases[of truck orders]
  proof
    assume "?rs = (0, [])"
    then show ?thesis using assms by simp
  next
    assume "from_visit ?E ?rs"
    then obtain idx sel cp cw cv valid where vis: "visits ?E idx sel cp cw cv valid"
      and rs: "?rs = (cp, selection_of ?E idx sel)"
      unfolding from_visit_def by blast
    from visits_sums[OF vis] visits_weight[OF vis] assms rs show ?thesis by simp
  qed
qed

lemma run_search_volume:
  assumes "0 \<le> max_volume_cuft truck"
  shows "sum_list (map (\<lambda>i. map volume_cuft orders ! i) (snd (run_search truck orders)))
           \<le> max_volume_cuft truck"
proof -
  let ?E = "make_env truck orders"
  let ?rs = "run_search truck orders"
  show ?thesis
    using run_search_cases[of truck orders]
  proof
    assume "?rs = (0, [])"
    then show ?thesis using assms by simp
  next
    assume "from_visit ?E ?rs"
    then obtain idx sel cp cw cv valid where vis: "visits ?E idx sel cp cw cv valid"
      and rs: "?rs = (cp, selection_of ?E idx sel)"
      unfolding from_visit_def by blast
    from visits_sums[OF vis] visits_volume[OF vis] assms rs show ?thesis by simp
  qed
qed

lemma run_search_totals_nonneg:
  assumes "orders_ok orders"
  shows "0 \<le> sum_list (map (\<lambda>i. map weight_lbs orders ! i) (snd (run_search truck orders)))"
    and "0 \<le> sum_list (map (\<lambda>i. map volume_cuft orders ! i) (snd (run_search truck orders)))"
proof -
  have lt: "i < length orders" if "i \<in> set (snd (run_search truck orders))" for i
    using run_search_selection(2)[of truck orders] that by auto
  have pos: "0 \<le> weight_lbs (orders ! i) \<and> 0 \<le> volume_cuft (orders ! i)" if "i < length orders" for i
    using assms that unfolding orders_ok_def by (metis less_imp_le nth_mem)
  show "0 \<le> sum_list (map (\<lambda>i. map weight_lbs orders ! i) (snd (run_search truck orders)))"
    by (rule sum_list_nonneg) (use lt pos in auto)
  show "0 \<le> sum_list (map (\<lambda>i. map volume_cuft orders ! i) (snd (run_search truck orders)))"
    by (rule sum_list_nonneg) (use lt pos in auto)
qed

lemma run_search_pairwise:
  assumes "a \<in> set (snd (run_search truck orders))" "b \<in> set (snd (run_search truck orders))"
    and "a \<noteq> b"
  shows "can_combine (orders ! a) (orders ! b)"
proof -
  let ?E = "make_env truck orders"
  let ?rs = "run_search truck orders"
  have wf: "env_wf ?E" by (rule env_wf_make_env)
  have "bit (compat_masks ?E ! a) b"
    using run_search_cases[of truck orders]
  proof
    assume "?rs = (0, [])"
    then show ?thesis using assms by simp
  next
    assume "from_visit ?E ?rs"
    then obtain idx sel cp cw cv valid where vis: "visits ?E idx sel cp cw cv valid"
      and rs: "?rs = (cp, selection_of ?E idx sel)"
      unfolding from_visit_def by blast
    from visits_pairwise[OF wf vis] assms rs show ?thesis by simp
  qed
  moreover have "a < length orders" using run_search_selection(2)[of truck orders] assms(1) by auto
  ultimately show ?thesis using assms(3) by (simp add: bit_build_compatibility_masks)
qed

lemma run_search_positive:
  assumes "i \<in> set (snd (run_search truck orders))"
  shows "0 < payout_cents (orders ! i)"
proof -
  let ?E = "make_env truck orders"
  let ?rs = "run_search truck orders"
  have wf: "env_wf ?E" by (rule env_wf_make_env)
  have "0 < payouts ?E ! i"
    using run_search_cases[of truck orders]
  proof
    assume "?rs = (0, [])"
    then show ?thesis using assms by simp
  next
    assume "from_visit ?E ?rs"
    then obtain idx sel cp cw cv valid where vis: "visits ?E idx sel cp cw cv valid"
      and rs: "?rs = (cp, selection_of ?E idx sel)"
      unfolding from_visit_def by blast
    from visits_positive[OF wf vis] assms rs show ?thesis by simp
  qed
  moreover have "i < length orders" using run_search_selection(2)[of truck orders] assms by auto
  ultimately show ?thesis by simp
qed

lemma run_search_covers:
  assumes "orders_ok orders" and "feasible_set (make_env truck orders) S"
  shows "(\<Sum>i\<in>S. payout_cents (orders ! i)) \<le> fst (run_search truck orders)"
proof -
  let ?E = "make_env truck orders"
  have nonneg: "\<forall>i < env_n ?E. 0 \<le> payouts ?E ! i \<and> 0 \<le> weights ?E ! i \<and> 0 \<le> volumes ?E ! i"
    using assms(1) unfolding orders_ok_def by (auto simp: less_imp_le)
  have "(\<Sum>i\<in>S. payouts ?E ! i) \<le> fst (search ?E 0 0 0 0 0 (push_bit (env_n ?E) 1 - 1) (0, []))"
    by (rule search_covers[OF env_wf_make_env nonneg assms(2) visits.root])
       (simp add: selection_of_def)
  moreover have "(\<Sum>i\<in>S. payouts ?E ! i) = (\<Sum>i\<in>S. payout_cents (orders ! i))"
    by (rule sum.cong) (use assms(2) in \<open>auto simp: feasible_set_def\<close>)
  ultimately show ?thesis by (simp add: run_search_def Let_def)
qed

section \<open>Index sets and loads\<close>

lemma subseqs_map: "subseqs (map f xs) = map (map f) (subseqs xs)"
  by (induction xs) (simp_all add: Let_def)

lemma subseq_orders_indices:
  assumes "subseq ys orders"
  obtains js where "subseq js [0 ..< length orders]" "ys = map (\<lambda>i. orders ! i) js"
proof -
  have "ys \<in> set (subseqs (map (\<lambda>i. orders ! i) [0 ..< length orders]))"
    using assms by (simp add: map_nth)
  then obtain js where "js \<in> set (subseqs [0 ..< length orders])" "ys = map (\<lambda>i. orders ! i) js"
    unfolding subseqs_map by auto
  then show ?thesis using that by simp
qed

lemma subseq_upt_props:
  assumes "subseq js [0 ..< n]"
  shows "distinct js" "set js \<subseteq> {..< n}"
proof -
  from assms have "js \<in> set (subseqs [0 ..< n])" by simp
  then show "distinct js" by (rule subseqs_distinctD) simp
  from \<open>js \<in> set (subseqs [0 ..< n])\<close> have "set js \<in> Pow (set [0 ..< n])"
    unfolding subseqs_powset[symmetric] by (rule imageI)
  then show "set js \<subseteq> {..< n}" by auto
qed

lemma pairwise_compatible_map:
  assumes "distinct js"
  shows "pairwise_compatible (map f js)
           \<longleftrightarrow> (\<forall>a\<in>set js. \<forall>b\<in>set js. a \<noteq> b \<longrightarrow> can_combine (f a) (f b))"
  using assms
proof (induction js)
  case Nil
  show ?case by simp
next
  case (Cons j js)
  then show ?case using can_combine_sym by (auto simp: pairwise_compatible.simps)
qed

lemma pairwise_compatible_nth:
  "pairwise_compatible ys \<longleftrightarrow>
     (\<forall>i < length ys. \<forall>j < length ys. i \<noteq> j \<longrightarrow> can_combine (ys ! i) (ys ! j))"
proof -
  have "pairwise_compatible (map (\<lambda>i. ys ! i) [0 ..< length ys])
      \<longleftrightarrow> (\<forall>a\<in>set [0 ..< length ys]. \<forall>b\<in>set [0 ..< length ys]. a \<noteq> b \<longrightarrow> can_combine (ys ! a) (ys ! b))"
    by (rule pairwise_compatible_map) simp
  then show ?thesis by (auto simp: map_nth)
qed

lemma load_sums_indices:
  assumes "distinct js" "set js \<subseteq> {..< length orders}"
  shows "load_payout (map (\<lambda>i. orders ! i) js) = (\<Sum>i\<in>set js. payout_cents (orders ! i))"
    and "load_weight (map (\<lambda>i. orders ! i) js) = (\<Sum>i\<in>set js. map weight_lbs orders ! i)"
    and "load_volume (map (\<lambda>i. orders ! i) js) = (\<Sum>i\<in>set js. map volume_cuft orders ! i)"
proof -
  show "load_payout (map (\<lambda>i. orders ! i) js) = (\<Sum>i\<in>set js. payout_cents (orders ! i))"
    using assms(1) by (simp add: load_payout_def comp_def sum_list_distinct_sum)
  have "load_weight (map (\<lambda>i. orders ! i) js) = (\<Sum>i\<in>set js. weight_lbs (orders ! i))"
    using assms(1) by (simp add: load_weight_def comp_def sum_list_distinct_sum)
  also have "\<dots> = (\<Sum>i\<in>set js. map weight_lbs orders ! i)"
    by (rule sum.cong) (use assms(2) in auto)
  finally show "load_weight (map (\<lambda>i. orders ! i) js) = (\<Sum>i\<in>set js. map weight_lbs orders ! i)" .
  have "load_volume (map (\<lambda>i. orders ! i) js) = (\<Sum>i\<in>set js. volume_cuft (orders ! i))"
    using assms(1) by (simp add: load_volume_def comp_def sum_list_distinct_sum)
  also have "\<dots> = (\<Sum>i\<in>set js. map volume_cuft orders ! i)"
    by (rule sum.cong) (use assms(2) in auto)
  finally show "load_volume (map (\<lambda>i. orders ! i) js) = (\<Sum>i\<in>set js. map volume_cuft orders ! i)" .
qed

text \<open>A load given by distinct indices is feasible exactly when its index set is.\<close>

lemma feasible_load_indices:
  assumes "distinct js" "set js \<subseteq> {..< length orders}"
  shows "feasible_load truck (map (\<lambda>i. orders ! i) js) \<longleftrightarrow> feasible_set (make_env truck orders) (set js)"
proof -
  have lt: "\<And>a. a \<in> set js \<Longrightarrow> a < length orders" using assms(2) by auto
  have "(\<forall>a\<in>set js. \<forall>b\<in>set js. a \<noteq> b \<longrightarrow> can_combine (orders ! a) (orders ! b))
      \<longleftrightarrow> (\<forall>a\<in>set js. \<forall>b\<in>set js. a \<noteq> b \<longrightarrow> bit (build_compatibility_masks orders ! a) b)"
    using lt by (simp add: bit_build_compatibility_masks)
  then show ?thesis
    unfolding feasible_load_def feasible_set_def
    using assms by (simp add: load_sums_indices pairwise_compatible_map)
qed

lemma feasible_load_bounded:
  assumes ok: "orders_ok orders" and sub: "subseq ys orders" and feas: "feasible_load truck ys"
  shows "load_payout ys \<le> fst (run_search truck orders)"
proof -
  from sub obtain js where js: "subseq js [0 ..< length orders]" "ys = map (\<lambda>i. orders ! i) js"
    by (rule subseq_orders_indices)
  note props = subseq_upt_props[OF js(1)]
  have "feasible_set (make_env truck orders) (set js)"
    using feas feasible_load_indices[OF props] js(2) by simp
  then have "(\<Sum>i\<in>set js. payout_cents (orders ! i)) \<le> fst (run_search truck orders)"
    by (rule run_search_covers[OF ok])
  then show ?thesis using load_sums_indices(1)[OF props] js(2) by simp
qed

text \<open>The orders of the final selection, listed in input order, are a feasible load.\<close>

lemma run_search_attained:
  assumes "0 \<le> max_weight_lbs truck" "0 \<le> max_volume_cuft truck"
  obtains ys where "subseq ys orders" "feasible_load truck ys"
    "load_payout ys = fst (run_search truck orders)"
proof -
  let ?sel = "snd (run_search truck orders)"
  let ?js = "filter (\<lambda>i. i \<in> set ?sel) [0 ..< length orders]"
  let ?ys = "map (\<lambda>i. orders ! i) ?js"
  note sel = run_search_selection[of truck orders]
  have set_js: "set ?js = set ?sel" using sel(2) by auto
  have d: "distinct ?js" and s: "set ?js \<subseteq> {..< length orders}" by auto
  have "subseq ?ys (map (\<lambda>i. orders ! i) [0 ..< length orders])"
    by (rule subseq_map) simp
  then have 1: "subseq ?ys orders" by (simp add: map_nth)
  have w: "(\<Sum>i\<in>set ?sel. map weight_lbs orders ! i) \<le> max_weight_lbs truck"
    using run_search_weight[OF assms(1), of orders] sel(1) by (simp add: sum_list_distinct_sum)
  have v: "(\<Sum>i\<in>set ?sel. map volume_cuft orders ! i) \<le> max_volume_cuft truck"
    using run_search_volume[OF assms(2), of orders] sel(1) by (simp add: sum_list_distinct_sum)
  have "pairwise_compatible ?ys"
    unfolding pairwise_compatible_map[OF d] set_js
    using run_search_pairwise[of _ truck orders] by blast
  with w v have 2: "feasible_load truck ?ys"
    unfolding feasible_load_def load_sums_indices(2,3)[OF d s] set_js by simp
  have 3: "load_payout ?ys = fst (run_search truck orders)"
    unfolding load_sums_indices(1)[OF d s] set_js run_search_sums[of truck orders]
    using sel(1) by (simp add: sum_list_distinct_sum)
  from 1 2 3 show ?thesis by (rule that)
qed

lemma run_search_eq_brute_force:
  assumes "valid_input truck orders"
  shows "fst (run_search truck orders) = brute_force_payout truck orders"
proof -
  from assms have caps: "0 \<le> max_weight_lbs truck" "0 \<le> max_volume_cuft truck"
    and ok: "orders_ok orders"
    by (auto simp: valid_input_def truck_ok_def)
  obtain ys where ys: "subseq ys orders" "feasible_load truck ys"
    "load_payout ys = fst (run_search truck orders)"
    using run_search_attained[OF caps] by blast
  have "Max (set (map load_payout (filter (feasible_load truck) (subseqs orders))))
          = fst (run_search truck orders)"
  proof (rule Max_eqI)
    show "finite (set (map load_payout (filter (feasible_load truck) (subseqs orders))))"
      by (rule finite_set)
    show "fst (run_search truck orders) \<in> set (map load_payout (filter (feasible_load truck) (subseqs orders)))"
      using ys by force
    fix y assume "y \<in> set (map load_payout (filter (feasible_load truck) (subseqs orders)))"
    then obtain zs where "subseq zs orders" "feasible_load truck zs" "y = load_payout zs" by auto
    then show "y \<le> fst (run_search truck orders)"
      using feasible_load_bounded[OF ok] by simp
  qed
  then show ?thesis by (simp add: brute_force_payout_def)
qed

lemma optimize_payout_mono_subseq:
  assumes "valid_input truck orders" "orders_ok orders'" "subseq orders orders'"
  shows "fst (run_search truck orders) \<le> fst (run_search truck orders')"
proof -
  from assms(1) have caps: "0 \<le> max_weight_lbs truck" "0 \<le> max_volume_cuft truck"
    by (auto simp: valid_input_def truck_ok_def)
  obtain ys where ys: "subseq ys orders" "feasible_load truck ys"
    "load_payout ys = fst (run_search truck orders)"
    using run_search_attained[OF caps] by blast
  from ys(1) assms(3) have "subseq ys orders'" by (rule subseq_order.trans)
  then have "load_payout ys \<le> fst (run_search truck orders')"
    using ys(2) by (rule feasible_load_bounded[OF assms(2)])
  with ys(3) show ?thesis by simp
qed

section \<open>Utilization percentages\<close>

lemma pow2_pos: "0 < pow2 e"
  by (simp add: pow2_def)

lemma pow2_le_1: "e \<le> 0 \<Longrightarrow> pow2 e \<le> 1"
  by (auto simp: pow2_def divide_le_eq_1)

lemma ilog2_le_0:
  assumes "0 < a" "a \<le> 1"
  shows "ilog2 a \<le> 0"
proof -
  obtain p d where pd: "quotient_of a = (p, d)" by (cases "quotient_of a")
  then have d: "0 < d" and a: "a = of_int p / of_int d"
    by (auto dest: quotient_of_denom_pos quotient_of_div)
  from assms(2) a d have "p \<le> d" by (simp add: divide_le_eq_1)
  then have "bitlen p \<le> bitlen d"
    unfolding bitlen_def by (simp add: floorlog_mono nat_mono)
  then show ?thesis by (simp add: ilog2_def pd Let_def)
qed

lemma round_half_even_le: "of_int (round_half_even q) \<le> q + 1"
proof -
  have "(of_int \<lfloor>q\<rfloor> :: rat) \<le> q" by (rule of_int_floor_le)
  then have 1: "(of_int \<lfloor>q\<rfloor> :: rat) \<le> q + 1" by linarith
  have 2: "(of_int (\<lfloor>q\<rfloor> + 1) :: rat) \<le> q + 1" by simp
  show ?thesis unfolding round_half_even_def Let_def using 1 2 by (simp only: split: if_split) simp
qed

lemma round_binary64_finite:
  assumes "\<bar>q\<bar> \<le> 1"
  shows "\<exists>r. round_binary64 q = Finite r"
proof (cases "q = 0")
  case True
  then show ?thesis by (simp add: round_binary64_def)
next
  case False
  define a where "a = \<bar>q\<bar>"
  define e where "e = max (ilog2 a) (- 1022)"
  define ulp where "ulp = pow2 (e - 52)"
  define r where "r = of_int (round_half_even (a / ulp)) * ulp"
  have a: "0 < a" "a \<le> 1" using False assms by (auto simp: a_def)
  have "e \<le> 0" using ilog2_le_0[OF a] by (simp add: e_def)
  then have u1: "ulp \<le> 1" unfolding ulp_def by (intro pow2_le_1) simp
  have u0: "0 < ulp" unfolding ulp_def by (rule pow2_pos)
  have "r \<le> (a / ulp + 1) * ulp"
    unfolding r_def using round_half_even_le[of "a / ulp"] u0 by (simp add: mult_right_mono)
  also have "\<dots> = a + ulp" using u0 by (simp add: field_simps)
  also have "\<dots> \<le> 2" using a u1 by simp
  finally have "r \<le> 2" .
  moreover have "(2::rat) < pow2 1024" by (simp add: pow2_def)
  ultimately have "\<not> pow2 1024 \<le> r" by simp
  then show ?thesis
    using False by (simp add: round_binary64_def Let_def a_def[symmetric] e_def[symmetric] ulp_def[symmetric] r_def[symmetric])
qed

lemma utilization_zero: "utilization 0 capacity = Inr (Finite 0)"
  by (simp add: utilization_def py_truediv_def round_binary64_def py_mul_100_def)

lemma py_round2_zero: "py_round2 (Finite 0) = Finite 0"
  by (simp add: py_round2_def round_half_even_def round_binary64_def)

lemma utilization_within:
  assumes "0 \<le> used" "0 \<le> capacity \<Longrightarrow> used \<le> capacity"
  shows "utilization used capacity =
           Inr (if capacity \<le> 0 then Finite 0
                else py_mul_100 (round_binary64 (of_int used / of_int capacity)))"
proof (cases "0 < capacity")
  case True
  with assms have "\<bar>(of_int used / of_int capacity :: rat)\<bar> \<le> 1"
    by (simp add: divide_le_eq_1)
  then obtain r where "round_binary64 (of_int used / of_int capacity) = Finite r"
    using round_binary64_finite by blast
  with True show ?thesis by (simp add: utilization_def py_truediv_def)
next
  case False
  then show ?thesis by (simp add: utilization_def)
qed

lemma utilization_cases:
  "utilization used capacity =
      Inr (if capacity \<le> 0 then Finite 0
           else py_mul_100 (round_binary64 (of_int used / of_int capacity)))
   \<or> (0 < capacity \<and> utilization used capacity = Inl OverflowError)"
  by (cases "round_binary64 (of_int used / of_int capacity)")
     (auto simp: utilization_def py_truediv_def)

text \<open>
  \<open>round_binary64\<close> against the specification: a finite result is a nearest binary64
  value, and below \<open>2 ^ E\<close> the result is finite and within \<open>2 ^ (E - 54)\<close> of the
  rational it rounds.
\<close>

lemma pow2_powi: "pow2 e = 2 powi e"
proof (cases "0 \<le> e")
  case True
  then show ?thesis by (simp add: pow2_def power_int_def)
next
  case False
  have "inverse (2::rat) ^ nat (- e) = 1 / 2 ^ nat (- e)"
    by (simp add: power_one_over inverse_eq_divide)
  with False show ?thesis by (simp add: pow2_def power_int_def)
qed

lemma pow2_add: "pow2 (a + b) = pow2 a * pow2 b"
  by (simp add: pow2_powi power_int_add)

lemma pow2_diff: "pow2 (a - b) = pow2 a / pow2 b"
  by (simp add: pow2_powi power_int_diff)

lemma pow2_nat: "pow2 (int n) = 2 ^ n"
  by (simp add: pow2_def)

lemma pow2_mono: "a \<le> b \<Longrightarrow> pow2 a \<le> pow2 b"
  unfolding pow2_powi by (rule power_int_increasing) simp_all

lemma pow2_strict_mono: "a < b \<Longrightarrow> pow2 a < pow2 b"
  unfolding pow2_powi by (rule power_int_strict_increasing) simp_all

lemma pow2_less_iff: "pow2 a < pow2 b \<longleftrightarrow> a < b"
  using pow2_strict_mono[of a b] pow2_mono[of b a] by (auto simp: not_less[symmetric])

lemma round_half_even_cases:
  "round_half_even x = \<lfloor>x\<rfloor> \<and> x - of_int \<lfloor>x\<rfloor> \<le> 1 / 2
   \<or> round_half_even x = \<lfloor>x\<rfloor> + 1 \<and> 1 / 2 \<le> x - of_int \<lfloor>x\<rfloor>"
  by (auto simp: round_half_even_def Let_def)

lemma round_half_even_nearest:
  "\<bar>x - of_int (round_half_even x)\<bar> \<le> \<bar>x - of_int j\<bar>"
proof -
  define f where "f = \<lfloor>x\<rfloor>"
  have f: "of_int f \<le> x" "x < of_int f + 1"
    using floor_correct[of x] by (simp_all add: f_def)
  consider "j \<le> f" | "f + 1 \<le> j" by linarith
  then show ?thesis
  proof cases
    case 1
    then have "(of_int j :: rat) \<le> of_int f" by simp
    with f round_half_even_cases[of x] show ?thesis unfolding f_def[symmetric] by auto
  next
    case 2
    then have "(of_int f :: rat) + 1 \<le> of_int j" by (metis of_int_1 of_int_add of_int_le_iff)
    with f round_half_even_cases[of x] show ?thesis unfolding f_def[symmetric] by auto
  qed
qed

lemma round_half_even_half: "\<bar>x - of_int (round_half_even x)\<bar> \<le> 1 / 2"
proof -
  have "of_int \<lfloor>x\<rfloor> \<le> x" "x < of_int \<lfloor>x\<rfloor> + 1"
    using floor_correct[of x] by simp_all
  with round_half_even_cases[of x] show ?thesis by auto
qed

lemma round_half_even_mono_int: "x \<le> of_int j \<Longrightarrow> round_half_even x \<le> j"
proof -
  assume a: "x \<le> of_int j"
  then have fl: "\<lfloor>x\<rfloor> \<le> j" by (simp add: floor_le_iff) 
  show ?thesis
  proof (cases "\<lfloor>x\<rfloor> = j")
    case True
    then have "x - of_int \<lfloor>x\<rfloor> \<le> 0" using a by simp
    then show ?thesis using round_half_even_cases[of x] True by auto
  next
    case False
    with fl have "\<lfloor>x\<rfloor> + 1 \<le> j" by simp
    then show ?thesis using round_half_even_cases[of x] by auto
  qed
qed

lemma round_half_even_ge_int: "of_int j \<le> x \<Longrightarrow> j \<le> round_half_even x"
proof -
  assume "of_int j \<le> x"
  then have "j \<le> \<lfloor>x\<rfloor>" by (simp add: le_floor_iff)
  then show ?thesis using round_half_even_cases[of x] by auto
qed

lemma ilog2_bounds:
  assumes "0 < a"
  shows "pow2 (ilog2 a) \<le> a" "a < pow2 (ilog2 a + 1)"
proof -
  obtain p d where pd: "quotient_of a = (p, d)" by (cases "quotient_of a")
  then have d: "0 < d" and a: "a = of_int p / of_int d"
    by (auto dest: quotient_of_denom_pos quotient_of_div)
  from assms a d have p: "0 < p" by (simp add: zero_less_divide_iff)
  define bp where "bp = bitlen p"
  define bd where "bd = bitlen d"
  have bp: "1 \<le> bp" and bd: "1 \<le> bd"
    using p d by (auto simp: bp_def bd_def bitlen_alt_def)
  have pb: "pow2 (bp - 1) \<le> of_int p" "of_int p < pow2 bp"
  proof -
    from bitlen_bounds[OF p] have "2 ^ nat (bp - 1) \<le> p" "p < 2 ^ nat bp"
      by (simp_all add: bp_def)
    then have "(of_int (2 ^ nat (bp - 1)) :: rat) \<le> of_int p" "(of_int p :: rat) < of_int (2 ^ nat bp)"
      by (simp_all only: of_int_le_iff of_int_less_iff)
    then show "pow2 (bp - 1) \<le> of_int p" "of_int p < pow2 bp"
      using bp by (simp_all add: pow2_def)
  qed
  have db: "pow2 (bd - 1) \<le> of_int d" "of_int d < pow2 bd"
  proof -
    from bitlen_bounds[OF d] have "2 ^ nat (bd - 1) \<le> d" "d < 2 ^ nat bd"
      by (simp_all add: bd_def)
    then have "(of_int (2 ^ nat (bd - 1)) :: rat) \<le> of_int d" "(of_int d :: rat) < of_int (2 ^ nat bd)"
      by (simp_all only: of_int_le_iff of_int_less_iff)
    then show "pow2 (bd - 1) \<le> of_int d" "of_int d < pow2 bd"
      using bd by (simp_all add: pow2_def)
  qed
  have dpos: "(0::rat) < of_int d" using d by simp
  have lo: "pow2 (bp - bd - 1) < a"
  proof -
    have "pow2 (bp - bd - 1) = pow2 (bp - 1) / pow2 bd"
      using pow2_diff[of "bp - 1" bd] by (simp add: algebra_simps)
    also have "\<dots> \<le> of_int p / pow2 bd"
      using pb(1) pow2_pos[of bd] by (simp add: divide_right_mono)
    also have "\<dots> < of_int p / of_int d"
      using db(2) dpos p by (simp add: divide_strict_left_mono pow2_pos)
    finally show ?thesis using a by simp
  qed
  have hi: "a < pow2 (bp - bd + 1)"
  proof -
    have "a = of_int p / of_int d" by (rule a)
    also have "\<dots> < pow2 bp / of_int d"
      using pb(2) dpos by (simp add: divide_strict_right_mono)
    also have "\<dots> \<le> pow2 bp / pow2 (bd - 1)"
      using db(1) pow2_pos[of "bd - 1"] pow2_pos[of bp] by (simp add: divide_left_mono)
    also have "\<dots> = pow2 (bp - bd + 1)"
      using pow2_diff[of bp "bd - 1"] by (simp add: algebra_simps)
    finally show ?thesis .
  qed
  have il: "ilog2 a = (if pow2 (bp - bd) \<le> a then bp - bd else bp - bd - 1)"
    by (simp add: ilog2_def pd Let_def bp_def bd_def)
  show "pow2 (ilog2 a) \<le> a" using lo by (auto simp: il less_imp_le)
  show "a < pow2 (ilog2 a + 1)" using hi by (auto simp: il not_le)
qed

lemma binary64_I: "\<bar>m\<bar> < 2 ^ 53 \<Longrightarrow> - 1074 \<le> e \<Longrightarrow> e \<le> 971 \<Longrightarrow> binary64 (of_int m * pow2 e)"
  unfolding binary64_def pow2_powi by blast

lemma binary64_minus: "binary64 z \<Longrightarrow> binary64 (- z)"
proof -
  assume "binary64 z"
  then obtain m e :: int where "\<bar>m\<bar> < 2 ^ 53" "- 1074 \<le> e" "e \<le> 971" "z = of_int m * 2 powi e"
    unfolding binary64_def by blast
  then have "\<bar>- m\<bar> < 2 ^ 53" "- z = of_int (- m) * 2 powi e" by simp_all
  with \<open>- 1074 \<le> e\<close> \<open>e \<le> 971\<close> show ?thesis unfolding binary64_def by blast
qed

lemma binary64_zero: "binary64 0"
  using binary64_I[of 0 0] by simp

text \<open>The magnitude that round_binary64 computes for a positive rational.\<close>

lemma magnitude_rounding:
  fixes a :: rat
  assumes a: "0 < a"
  defines "e \<equiv> max (ilog2 a) (- 1022)"
  defines "u \<equiv> pow2 (e - 52)"
  defines "m \<equiv> round_half_even (a / u)"
  defines "r \<equiv> of_int m * u"
  shows "\<bar>a - r\<bar> \<le> \<bar>a - of_int j * u\<bar>"
    and "\<bar>a - r\<bar> \<le> u / 2"
    and "r < pow2 1024 \<Longrightarrow> binary64 r"
    and "binary64 z \<Longrightarrow> (\<exists>j::int. z = of_int j * u) \<or> (\<bar>z\<bar> < pow2 e \<and> pow2 e \<le> a)"
    and "pow2 e = of_int (2 ^ 52) * u"
    and "0 \<le> r"
proof -
  have u: "0 < u" unfolding u_def by (rule pow2_pos)
  have e_ge: "- 1022 \<le> e" "ilog2 a \<le> e" by (simp_all add: e_def)
  have p52: "pow2 52 = of_int (2 ^ 52)" and p53: "pow2 53 = of_int (2 ^ 53)" and p1: "pow2 1 = 2"
    by (simp_all add: pow2_def)
  have "pow2 e = pow2 52 * pow2 (e - 52)" using pow2_add[of 52 "e - 52"] by simp
  then have pe: "pow2 e = of_int (2 ^ 52) * u" by (simp only: p52 u_def)
  show "pow2 e = of_int (2 ^ 52) * u" by (rule pe)
  have "pow2 (e + 1) = pow2 53 * pow2 (e - 52)"
    using pow2_add[of 53 "e - 52"] by (simp add: add.commute)
  then have pe1: "pow2 (e + 1) = of_int (2 ^ 53) * u" by (simp only: p53 u_def)
  have dist: "\<bar>a - of_int k * u\<bar> = u * \<bar>a / u - of_int k\<bar>" for k :: int
  proof -
    have "a - of_int k * u = u * (a / u - of_int k)" using u by (simp add: field_simps)
    then show ?thesis using u by (simp add: abs_mult)
  qed
  show near: "\<bar>a - r\<bar> \<le> \<bar>a - of_int j * u\<bar>" for j
    unfolding r_def dist m_def using round_half_even_nearest[of "a / u" j] u
    by (simp add: mult_left_mono)
  have "u * \<bar>a / u - of_int m\<bar> \<le> u * (1 / 2)"
    unfolding m_def using round_half_even_half[of "a / u"] u by (intro mult_left_mono) simp_all
  then show "\<bar>a - r\<bar> \<le> u / 2" unfolding r_def dist by simp
  have m0: "0 \<le> m"
    unfolding m_def by (rule round_half_even_ge_int) (use a u in simp)
  then show "0 \<le> r" using u by (simp add: r_def)
  have "a < pow2 (ilog2 a + 1)" using ilog2_bounds(2)[OF a] .
  also have "\<dots> \<le> pow2 (e + 1)" using e_ge by (intro pow2_mono) simp
  finally have "a < of_int (2 ^ 53) * u" unfolding pe1 .
  then have "a / u < of_int (2 ^ 53)" using u by (simp only: pos_divide_less_eq)
  then have m53: "m \<le> 2 ^ 53"
    unfolding m_def by (intro round_half_even_mono_int) simp
  show "binary64 r" if rlt: "r < pow2 1024"
  proof (cases "m = 2 ^ 53")
    case True
    then have "r = pow2 (e + 1)" by (simp add: r_def pe1)
    with rlt have "e + 1 < 1024" by (simp add: pow2_less_iff)
    then have e1: "e - 51 \<le> 971" by simp
    have "pow2 (e - 51) = pow2 1 * pow2 (e - 52)" using pow2_add[of 1 "e - 52"] by simp
    then have "r = of_int (2 ^ 52) * pow2 (e - 51)"
      using True by (simp add: r_def u_def p1)
    moreover have "binary64 (of_int (2 ^ 52) * pow2 (e - 51))"
      by (rule binary64_I) (use e_ge e1 in simp_all)
    ultimately show ?thesis by simp
  next
    case False
    with m53 m0 have mlt: "\<bar>m\<bar> < 2 ^ 53" by simp
    have "e \<le> 1023"
    proof (rule ccontr)
      assume "\<not> e \<le> 1023"
      then have big: "1024 \<le> e" by simp
      then have "e = ilog2 a" by (simp add: e_def)
      then have "pow2 e \<le> a" using ilog2_bounds(1)[OF a] by simp
      then have "of_int (2 ^ 52) * u \<le> a" unfolding pe .
      then have "of_int (2 ^ 52) \<le> a / u" using u by (simp only: pos_le_divide_eq)
      then have "2 ^ 52 \<le> m" unfolding m_def by (rule round_half_even_ge_int)
      then have "(of_int (2 ^ 52) :: rat) \<le> of_int m" by (simp only: of_int_le_iff)
      then have "pow2 e \<le> r" using u by (simp add: pe r_def mult_right_mono)
      moreover have "pow2 1024 \<le> pow2 e" using big by (rule pow2_mono)
      ultimately show False using rlt by simp
    qed
    then have "e - 52 \<le> 971" by simp
    with mlt e_ge show ?thesis unfolding r_def u_def by (intro binary64_I) simp_all
  qed
  show "(\<exists>j::int. z = of_int j * u) \<or> (\<bar>z\<bar> < pow2 e \<and> pow2 e \<le> a)" if "binary64 z"
  proof -
    from that obtain n f :: int where n: "\<bar>n\<bar> < 2 ^ 53" and f: "- 1074 \<le> f" "f \<le> 971"
      and z: "z = of_int n * pow2 f"
      unfolding binary64_def pow2_powi by blast
    show ?thesis
    proof (cases "e - 52 \<le> f")
      case True
      then have nn: "0 \<le> f - (e - 52)" by simp
      have "pow2 f = pow2 (f - (e - 52)) * u"
        using pow2_add[of "f - (e - 52)" "e - 52"] by (simp add: u_def)
      moreover have "pow2 (f - (e - 52)) = of_int (2 ^ nat (f - (e - 52)))"
        using nn by (simp add: pow2_def)
      ultimately have "pow2 f = of_int (2 ^ nat (f - (e - 52))) * u" by simp
      then have "z = of_int (n * 2 ^ nat (f - (e - 52))) * u" by (simp add: z)
      then show ?thesis by blast
    next
      case False
      then have fe: "f + 53 \<le> e" by simp
      with f have "- 1022 < e" by simp
      then have "e = ilog2 a" by (simp add: e_def)
      then have 1: "pow2 e \<le> a" using ilog2_bounds(1)[OF a] by simp
      have "(of_int \<bar>n\<bar> :: rat) < of_int (2 ^ 53)" using n by (simp only: of_int_less_iff)
      then have "\<bar>z\<bar> < of_int (2 ^ 53) * pow2 f"
        using pow2_pos[of f] by (simp add: z abs_mult)
      also have "\<dots> = pow2 (f + 53)" using pow2_add[of 53 f] by (simp add: p53 add.commute)
      also have "\<dots> \<le> pow2 e" using fe by (rule pow2_mono)
      finally show ?thesis using 1 by simp
    qed
  qed
qed

lemma round_binary64_unfold:
  assumes "q \<noteq> 0"
  shows "round_binary64 q =
     (if pow2 1024 \<le> of_int (round_half_even (\<bar>q\<bar> / pow2 (max (ilog2 \<bar>q\<bar>) (- 1022) - 52)))
                         * pow2 (max (ilog2 \<bar>q\<bar>) (- 1022) - 52)
      then (if 0 < q then PosInf else NegInf)
      else Finite (if 0 < q
             then of_int (round_half_even (\<bar>q\<bar> / pow2 (max (ilog2 \<bar>q\<bar>) (- 1022) - 52)))
                    * pow2 (max (ilog2 \<bar>q\<bar>) (- 1022) - 52)
             else - (of_int (round_half_even (\<bar>q\<bar> / pow2 (max (ilog2 \<bar>q\<bar>) (- 1022) - 52)))
                    * pow2 (max (ilog2 \<bar>q\<bar>) (- 1022) - 52))))"
  using assms by (simp add: round_binary64_def Let_def)

lemma nearest_of_magnitude:
  fixes a :: rat
  assumes a: "0 < a"
    and r: "r = of_int (round_half_even (a / pow2 (max (ilog2 a) (- 1022) - 52)))
                  * pow2 (max (ilog2 a) (- 1022) - 52)"
    and fin: "r < pow2 1024"
  shows "nearest_binary64 a r"
  unfolding nearest_binary64_def
proof (intro conjI allI impI)
  note mr = magnitude_rounding[OF a, folded r]
  show "binary64 r" using fin by (rule mr(3))
  fix z assume z: "binary64 z"
  from mr(4)[OF z] show "\<bar>a - r\<bar> \<le> \<bar>a - z\<bar>"
  proof
    assume "\<exists>j::int. z = of_int j * pow2 (max (ilog2 a) (- 1022) - 52)"
    then obtain j :: int where "z = of_int j * pow2 (max (ilog2 a) (- 1022) - 52)" by blast
    then show ?thesis using mr(1)[of j] by simp
  next
    assume s: "\<bar>z\<bar> < pow2 (max (ilog2 a) (- 1022)) \<and> pow2 (max (ilog2 a) (- 1022)) \<le> a"
    have "\<bar>a - r\<bar> \<le> \<bar>a - of_int (2 ^ 52) * pow2 (max (ilog2 a) (- 1022) - 52)\<bar>"
      by (rule mr(1))
    also have "\<dots> = \<bar>a - pow2 (max (ilog2 a) (- 1022))\<bar>" unfolding mr(5) ..
    also have "\<dots> \<le> \<bar>a - z\<bar>" using s by linarith
    finally show ?thesis .
  qed
qed

lemma round_binary64_nearest:
  assumes "round_binary64 q = Finite w"
  shows "nearest_binary64 q w"
proof -
  consider "q = 0" | "0 < q" | "q < 0" by linarith
  then show ?thesis
  proof cases
    case 1
    with assms have "w = 0" by (simp add: round_binary64_def)
    with 1 show ?thesis by (simp add: nearest_binary64_def binary64_zero)
  next
    case 2
    define r where "r = of_int (round_half_even (q / pow2 (max (ilog2 q) (- 1022) - 52)))
                  * pow2 (max (ilog2 q) (- 1022) - 52)"
    from 2 have abs: "\<bar>q\<bar> = q" and nz: "q \<noteq> 0" by simp_all
    from assms have "r < pow2 1024 \<and> w = r"
      unfolding round_binary64_unfold[OF nz] abs r_def[symmetric] using 2
      by (auto split: if_splits)
    then show ?thesis using nearest_of_magnitude[OF 2 r_def] by simp
  next
    case 3
    define a where "a = - q"
    define r where "r = of_int (round_half_even (a / pow2 (max (ilog2 a) (- 1022) - 52)))
                  * pow2 (max (ilog2 a) (- 1022) - 52)"
    from 3 have abs: "\<bar>q\<bar> = a" and nz: "q \<noteq> 0" and a: "0 < a" by (simp_all add: a_def)
    from assms have "r < pow2 1024 \<and> w = - r"
      unfolding round_binary64_unfold[OF nz] abs r_def[symmetric] using 3
      by (auto split: if_splits)
    then have fin: "r < pow2 1024" and w: "w = - r" by simp_all
    have n: "nearest_binary64 a r" using nearest_of_magnitude[OF a r_def fin] .
    show ?thesis
      unfolding nearest_binary64_def
    proof (intro conjI allI impI)
      show "binary64 w" unfolding w using n by (auto simp: nearest_binary64_def intro: binary64_minus)
      fix z assume "binary64 z"
      then have "binary64 (- z)" by (rule binary64_minus)
      with n have "\<bar>a - r\<bar> \<le> \<bar>a - (- z)\<bar>" unfolding nearest_binary64_def by blast
      then show "\<bar>q - w\<bar> \<le> \<bar>q - z\<bar>" unfolding w a_def by linarith
    qed
  qed
qed

lemma round_binary64_error:
  assumes q: "\<bar>q\<bar> < pow2 E" and E: "- 1022 < E" "E \<le> 1023"
  shows "\<exists>w. round_binary64 q = Finite w \<and> \<bar>w - q\<bar> \<le> pow2 (E - 54)"
proof (cases "q = 0")
  case True
  then show ?thesis using pow2_pos[of "E - 54"] by (simp add: round_binary64_def less_imp_le)
next
  case False
  define a where "a = \<bar>q\<bar>"
  define e where "e = max (ilog2 a) (- 1022)"
  define r where "r = of_int (round_half_even (a / pow2 (e - 52))) * pow2 (e - 52)"
  have a: "0 < a" using False by (simp add: a_def)
  note mr = magnitude_rounding[OF a, folded e_def, folded r_def]
  have "pow2 (ilog2 a) \<le> a" by (rule ilog2_bounds(1)[OF a])
  also have "\<dots> < pow2 E" using q by (simp add: a_def)
  finally have "ilog2 a < E" by (simp add: pow2_less_iff)
  with E have eE: "e \<le> E - 1" by (simp add: e_def)
  have half: "pow2 (e - 52) / 2 \<le> pow2 (E - 54)"
  proof -
    have "pow2 (e - 52) = pow2 1 * pow2 (e - 53)" using pow2_add[of 1 "e - 53"] by simp
    then have "pow2 (e - 52) / 2 = pow2 (e - 53)" by (simp add: pow2_def)
    also have "\<dots> \<le> pow2 (E - 54)" using eE by (intro pow2_mono) simp
    finally show ?thesis .
  qed
  have err: "\<bar>a - r\<bar> \<le> pow2 (E - 54)" using mr(2) half by linarith
  have "pow2 (E - 54) \<le> pow2 E" by (intro pow2_mono) simp
  with err q have "r < pow2 E + pow2 E" unfolding a_def[symmetric] by linarith
  also have "\<dots> = pow2 (E + 1)" using pow2_add[of 1 E] by (simp add: pow2_def add.commute)
  also have "\<dots> \<le> pow2 1024" using E by (intro pow2_mono) simp
  finally have rfin: "\<not> pow2 1024 \<le> r" by simp
  have rb: "round_binary64 q = Finite (if 0 < q then r else - r)"
    unfolding round_binary64_unfold[OF False] a_def[symmetric] e_def[symmetric] r_def[symmetric]
    using rfin by simp
  have "\<bar>(if 0 < q then r else - r) - q\<bar> = \<bar>a - r\<bar>"
    unfolding a_def by (cases "0 < q") (simp_all add: abs_minus_commute)
  with err rb show ?thesis by simp
qed

lemma utilization_positive_cases:
  assumes cap: "0 < capacity" and u: "utilization used capacity = Inr v"
  shows "py_round2 v = PosInf \<or> py_round2 v = NegInf
       \<or> rounded_percentage used capacity (py_round2 v)"
proof -
  from cap u obtain x where x: "round_binary64 (of_int used / of_int capacity) = Finite x"
    and v: "v = py_mul_100 (Finite x)"
    by (auto simp: utilization_def py_truediv_def split: py_float.splits)
  show ?thesis
  proof (cases "round_binary64 (x * 100)")
    case (Finite y)
    then have vy: "v = Finite y" by (simp add: v py_mul_100_def)
    show ?thesis
    proof (cases "round_binary64 (of_int (round_half_even (y * 100)) / 100)")
      case (Finite w)
      then have "py_round2 v = Finite w" by (simp add: vy py_round2_def)
      moreover have "nearest_binary64 (of_int used / of_int capacity) x"
        using x by (rule round_binary64_nearest)
      moreover have "nearest_binary64 (x * 100) y"
        using \<open>round_binary64 (x * 100) = Finite y\<close> by (rule round_binary64_nearest)
      moreover have "\<bar>y * 100 - of_int (round_half_even (y * 100))\<bar> \<le> 1 / 2"
        by (rule round_half_even_half)
      moreover have "nearest_binary64 (of_int (round_half_even (y * 100)) / 100) w"
        using Finite by (rule round_binary64_nearest)
      ultimately show ?thesis unfolding rounded_percentage_def by blast
    next
      case PosInf
      then show ?thesis by (simp add: vy py_round2_def)
    next
      case NegInf
      then show ?thesis by (simp add: vy py_round2_def)
    qed
  next
    case PosInf
    then show ?thesis by (simp add: v py_mul_100_def py_round2_def)
  next
    case NegInf
    then show ?thesis by (simp add: v py_mul_100_def py_round2_def)
  qed
qed

lemma utilization_accurate:
  assumes cap: "0 < capacity" and used: "0 \<le> used" "used \<le> capacity"
  shows "\<exists>v. utilization used capacity = Inr v
           \<and> rounded_percentage used capacity (py_round2 v)
           \<and> close_to_percentage used capacity (py_round2 v)"
proof -
  define q :: rat where "q = of_int used / of_int capacity"
  have q: "0 \<le> q" "q \<le> 1" using cap used by (simp_all add: q_def divide_le_eq_1)
  have p1: "pow2 1 = 2" and p7: "pow2 7 = 128"
    and pm53: "pow2 (- 53) = 1 / 2 ^ 53" and pm47: "pow2 (- 47) = 1 / 2 ^ 47"
    by (simp_all add: pow2_def)
  have "\<bar>q\<bar> < pow2 1" using q by (simp add: p1)
  from round_binary64_error[OF this] obtain x where x: "round_binary64 q = Finite x"
    and ex: "\<bar>x - q\<bar> \<le> pow2 (- 53)" by auto
  have xb: "\<bar>x * 100\<bar> < pow2 7" using ex q unfolding pm53 p7 by (simp add: abs_if split: if_splits)
  from round_binary64_error[OF xb] obtain y where y: "round_binary64 (x * 100) = Finite y"
    and ey: "\<bar>y - x * 100\<bar> \<le> pow2 (- 47)" by auto
  define k where "k = round_half_even (y * 100)"
  have ek: "\<bar>y * 100 - of_int k\<bar> \<le> 1 / 2" unfolding k_def by (rule round_half_even_half)
  have kb: "\<bar>of_int k / 100 :: rat\<bar> < pow2 7"
    using ek ey ex q unfolding pm53 pm47 p7 by (simp add: abs_if split: if_splits)
  from round_binary64_error[OF kb] obtain w where w: "round_binary64 (of_int k / 100) = Finite w"
    and ew: "\<bar>w - of_int k / 100\<bar> \<le> pow2 (- 47)" by auto
  have u: "utilization used capacity = Inr (Finite y)"
    using cap x y by (simp add: utilization_def py_truediv_def py_mul_100_def q_def)
  have r: "py_round2 (Finite y) = Finite w" using w by (simp add: py_round2_def k_def)
  have "rounded_percentage used capacity (Finite w)"
    unfolding rounded_percentage_def q_def[symmetric]
    using round_binary64_nearest[OF x] round_binary64_nearest[OF y] ek round_binary64_nearest[OF w]
    by blast
  moreover have "\<bar>w - 100 * q\<bar> \<le> 501 / 100000"
    using ew ek ey ex unfolding pm53 pm47 by (simp add: abs_if split: if_splits)
  then have "close_to_percentage used capacity (Finite w)"
    unfolding close_to_percentage_def q_def by simp
  ultimately show ?thesis using u r by simp
qed

lemma optimize_load_Inr_iff:
  "optimize_load truck orders = Inr r \<longleftrightarrow>
     (\<exists>wu vu.
        utilization (sum_list (map (\<lambda>i. map weight_lbs orders ! i) (snd (run_search truck orders))))
          (max_weight_lbs truck) = Inr wu
      \<and> utilization (sum_list (map (\<lambda>i. map volume_cuft orders ! i) (snd (run_search truck orders))))
          (max_volume_cuft truck) = Inr vu
      \<and> r = \<lparr> result_truck_id = truck_id truck,
               selected_order_ids = map (\<lambda>i. order_id (orders ! i)) (snd (run_search truck orders)),
               total_payout_cents = fst (run_search truck orders),
               total_weight_lbs = sum_list (map (\<lambda>i. map weight_lbs orders ! i) (snd (run_search truck orders))),
               total_volume_cuft = sum_list (map (\<lambda>i. map volume_cuft orders ! i) (snd (run_search truck orders))),
               utilization_weight_percent = py_round2 wu,
               utilization_volume_percent = py_round2 vu \<rparr>)"
  by (auto simp: optimize_load_def optimize_eq split: sum.splits)

lemma utilization_guard: "capacity \<le> 0 \<Longrightarrow> utilization used capacity = Inr (Finite 0)"
  by (simp add: utilization_def)

section \<open>The sample request, evaluated\<close>

lemma sample_valid: "valid_input sample_truck sample_orders"
  by (simp add: valid_input_def truck_ok_def orders_ok_def sample_truck_def sample_orders_def
      ord_001_def ord_002_def ord_003_def)

lemma sample_orders_ok: "orders_ok sample_orders"
  using sample_valid by (simp add: valid_input_def)

lemma sample_route_normalised:
  "py_lower (py_strip '' Los Angeles, CA '') = ''los angeles, ca''"
  by code_simp

lemma sample_tables:
  "order_by_value (make_env sample_truck sample_orders) = [2, 0, 1]"
  "suffix_payout (make_env sample_truck sample_orders) = [750000, 430000, 180000, 0]"
  by code_simp+

lemma sample_run_search: "run_search sample_truck sample_orders = (430000, [0, 1])"
  by code_simp

lemma sample_optimize:
  "optimize sample_truck sample_orders = ([''ord-001'', ''ord-002''], 430000, 30000, 2100)"
  by code_simp

lemma sample_optimize_load:
  "optimize_load sample_truck sample_orders =
     Inr \<lparr> result_truck_id = ''truck-123'', selected_order_ids = [''ord-001'', ''ord-002''],
           total_payout_cents = 430000, total_weight_lbs = 30000, total_volume_cuft = 2100,
           utilization_weight_percent = Finite (1199435244508283 / 17592186044416),
           utilization_volume_percent = Finite 70 \<rparr>"
  by code_simp

lemma sample_dominated: "dominated sample_orders ord_dominated"
  by code_simp

lemma sample_free_optimize:
  "optimize sample_truck [ord_001, ord_002, ord_003, ord_free]
     = ([''ord-001'', ''ord-002''], 430000, 30000, 2100)"
  by code_simp

lemma sample_free_feasible: "feasible_load sample_truck [ord_001, ord_002, ord_free]"
  by code_simp

section \<open>Properties of the optimizer\<close>

text \<open>
  C1 (optimality). For every truck and order list that satisfy the input preconditions, the
  payout returned by \<open>optimize\<close> is the maximum of the total payouts of all sub-lists of the
  orders that fit the truck's weight and volume capacities and are pairwise compatible: it is
  attained by such a load, and no such load has a strictly greater total payout.
\<close>

theorem optimize_payout_optimal:
  assumes "valid_input truck orders"
  shows "(case optimize truck orders of
            (selected_ids, total_payout, total_weight, total_volume) \<Rightarrow>
              total_payout = brute_force_payout truck orders
            \<and> (\<exists>ys. subseq ys orders \<and> feasible_load truck ys \<and> load_payout ys = total_payout)
            \<and> (\<forall>ys. subseq ys orders \<and> feasible_load truck ys \<longrightarrow> load_payout ys \<le> total_payout))"
proof -
  from assms have caps: "0 \<le> max_weight_lbs truck" "0 \<le> max_volume_cuft truck"
    and ok: "orders_ok orders"
    by (auto simp: valid_input_def truck_ok_def)
  have 1: "fst (run_search truck orders) = brute_force_payout truck orders"
    using assms by (rule run_search_eq_brute_force)
  have 2: "\<exists>ys. subseq ys orders \<and> feasible_load truck ys \<and> load_payout ys = fst (run_search truck orders)"
    using run_search_attained[OF caps, of orders] by blast
  have 3: "\<forall>ys. subseq ys orders \<and> feasible_load truck ys \<longrightarrow> load_payout ys \<le> fst (run_search truck orders)"
    using feasible_load_bounded[OF ok] by blast
  from 1 2 3 show ?thesis by (simp add: optimize_eq)
qed

theorem optimize_payout_optimal_witness:
  "valid_input sample_truck sample_orders
     \<and> brute_force_payout sample_truck sample_orders = 430000"
  using optimize_payout_optimal[OF sample_valid] sample_valid by (simp add: sample_optimize)

text \<open>
  C2 (feasibility). For every truck and order list that satisfy the input preconditions, the
  total weight returned by \<open>optimize\<close> is at most the truck's maximum weight and the total
  volume returned is at most the truck's maximum volume.
\<close>

theorem optimize_selection_feasible:
  assumes "valid_input truck orders"
  shows "(case optimize truck orders of
            (selected_ids, total_payout, total_weight, total_volume) \<Rightarrow>
              total_weight \<le> max_weight_lbs truck \<and> total_volume \<le> max_volume_cuft truck)"
proof -
  from assms have caps: "0 \<le> max_weight_lbs truck" "0 \<le> max_volume_cuft truck"
    by (auto simp: valid_input_def truck_ok_def)
  show ?thesis
    using run_search_weight[OF caps(1), of orders] run_search_volume[OF caps(2), of orders]
    by (simp add: optimize_eq)
qed

theorem optimize_selection_feasible_witness:
  "valid_input sample_truck sample_orders
     \<and> (30000::int) \<le> max_weight_lbs sample_truck \<and> (2100::int) \<le> max_volume_cuft sample_truck"
  using optimize_selection_feasible[OF sample_valid] sample_valid by (simp add: sample_optimize)

text \<open>
  C3 (pairwise compatibility). For every truck and order list that satisfy the input
  preconditions, the returned identifiers are those of the orders at the indices of the final
  selection, these indices are distinct, and every two different selected orders have the
  same route, overlapping time windows and equal hazmat flags. The search itself only
  intersects the eligible-set mask with the compatibility row of each order it includes.
\<close>

theorem optimize_selection_pairwise_compatible:
  assumes "valid_input truck orders"
  shows "(let sel = snd (run_search truck orders) in
           fst (optimize truck orders) = map (\<lambda>i. order_id (orders ! i)) sel
         \<and> distinct sel \<and> set sel \<subseteq> {..< length orders}
         \<and> (\<forall>i \<in> set sel. \<forall>j \<in> set sel. i \<noteq> j \<longrightarrow>
               check_same_route (orders ! i) (orders ! j)
             \<and> check_time_windows (orders ! i) (orders ! j)
             \<and> check_hazmat_ok (orders ! i) (orders ! j)))"
proof -
  have "\<forall>i \<in> set (snd (run_search truck orders)). \<forall>j \<in> set (snd (run_search truck orders)).
          i \<noteq> j \<longrightarrow> can_combine (orders ! i) (orders ! j)"
    using run_search_pairwise[of _ truck orders] by blast
  then show ?thesis
    using run_search_selection(1,2)[of truck orders]
    by (simp add: optimize_eq Let_def can_combine_def)
qed

theorem optimize_selection_pairwise_compatible_witness:
  "valid_input sample_truck sample_orders
     \<and> 0 \<in> set (snd (run_search sample_truck sample_orders))
     \<and> 1 \<in> set (snd (run_search sample_truck sample_orders))
     \<and> check_same_route (sample_orders ! 0) (sample_orders ! 1)
     \<and> check_time_windows (sample_orders ! 0) (sample_orders ! 1)
     \<and> check_hazmat_ok (sample_orders ! 0) (sample_orders ! 1)"
  using optimize_selection_pairwise_compatible[OF sample_valid] sample_valid
  by (simp add: sample_run_search Let_def)

text \<open>
  C4 (compatibility evaluator). For every two orders, \<open>can_combine\<close> returns true if and
  only if all of the following hold: their origins are the same place and their destinations
  are the same place, that is, equal after trimming surrounding white space and ignoring the
  case of letters as \<open>str.lower()\<close> does (\<open>same_place\<close>, stated on code points and not by
  the functions of the evaluator); the later pickup date is not after the earlier delivery
  date (closed intervals: touching end points overlap); and their hazmat flags are equal.
  Strings range over the Latin-1 code points.
\<close>

theorem can_combine_iff:
  "can_combine order1 order2 \<longleftrightarrow>
     same_place (origin order1) (origin order2)
   \<and> same_place (destination order1) (destination order2)
   \<and> max (pickup_date order1) (pickup_date order2)
        \<le> min (delivery_date order1) (delivery_date order2)
   \<and> is_hazmat order1 = is_hazmat order2"
  by (simp add: can_combine_def check_same_route_def check_time_windows_def check_hazmat_ok_def
      Let_def same_place_iff conj_ac)

theorem can_combine_iff_witness:
  "same_place (origin ord_001) (origin ord_free)
   \<and> same_place (destination ord_001) (destination ord_free)
   \<and> can_combine ord_001 ord_free"
proof -
  have o: "py_lower (py_strip (origin ord_001)) = py_lower (py_strip (origin ord_free))"
    by code_simp
  have d: "py_lower (py_strip (destination ord_001)) = py_lower (py_strip (destination ord_free))"
    by code_simp
  have t: "max (pickup_date ord_001) (pickup_date ord_free)
        \<le> min (delivery_date ord_001) (delivery_date ord_free)"
    by (simp add: ord_001_def ord_free_def)
  have h: "is_hazmat ord_001 = is_hazmat ord_free" by (simp add: ord_001_def ord_free_def)
  from o d have sp: "same_place (origin ord_001) (origin ord_free)"
    "same_place (destination ord_001) (destination ord_free)"
    by (simp_all add: same_place_iff)
  with t h can_combine_iff[of ord_001 ord_free] show ?thesis by simp
qed

text \<open>
  C4, as worded with case folding, does not hold: lower-casing is not case folding. The
  origins of \<open>strasse_upper\<close> and \<open>strasse_sharp\<close> are equal after trimming and case
  folding, their destinations, time windows and hazmat flags agree, and \<open>can_combine\<close>
  returns false for them, because \<open>str.lower()\<close> leaves the sharp s unchanged.
\<close>

theorem can_combine_not_case_folding:
  "compatible_as_claimed strasse_upper strasse_sharp \<and> \<not> can_combine strasse_upper strasse_sharp"
proof -
  have "case_fold (py_strip (origin strasse_upper)) = case_fold (py_strip (origin strasse_sharp))"
    by code_simp
  moreover have "case_fold (py_strip (destination strasse_upper))
      = case_fold (py_strip (destination strasse_sharp))"
    by code_simp
  moreover have "max (pickup_date strasse_upper) (pickup_date strasse_sharp)
        \<le> min (delivery_date strasse_upper) (delivery_date strasse_sharp)"
    by (simp add: strasse_upper_def strasse_sharp_def)
  moreover have "is_hazmat strasse_upper = is_hazmat strasse_sharp"
    by (simp add: strasse_upper_def strasse_sharp_def)
  ultimately have "compatible_as_claimed strasse_upper strasse_sharp"
    by (simp add: compatible_as_claimed_def same_place_folded_iff)
  moreover have "\<not> can_combine strasse_upper strasse_sharp" by code_simp
  ultimately show ?thesis by simp
qed

text \<open>
  C5 (consistency of the result). For every truck and order list that satisfy the input
  preconditions, the returned identifiers are the identifiers of the selected orders, and the
  returned weight, volume and payout are the sums of the weights, volumes and payouts of
  exactly these orders. The selected indices are distinct, and they are listed in search
  order, that is as a sub-list of \<open>order_by_value\<close>.
\<close>

theorem optimize_result_consistent:
  assumes "valid_input truck orders"
  shows "(case optimize truck orders of
            (selected_ids, total_payout, total_weight, total_volume) \<Rightarrow>
              (let sel = snd (run_search truck orders); chosen = map (\<lambda>i. orders ! i) sel in
                 distinct sel \<and> set sel \<subseteq> {..< length orders}
               \<and> subseq sel (order_by_value_of (map payout_cents orders))
               \<and> selected_ids = map order_id chosen
               \<and> total_weight = load_weight chosen
               \<and> total_volume = load_volume chosen
               \<and> total_payout = load_payout chosen))"
proof -
  let ?sel = "snd (run_search truck orders)"
  note sel = run_search_selection[of truck orders]
  have w: "sum_list (map (\<lambda>i. map weight_lbs orders ! i) ?sel) = load_weight (map (\<lambda>i. orders ! i) ?sel)"
    unfolding load_weight_def map_map comp_def
    by (rule arg_cong[where f = sum_list], rule map_cong) (use sel(2) in auto)
  have v: "sum_list (map (\<lambda>i. map volume_cuft orders ! i) ?sel) = load_volume (map (\<lambda>i. orders ! i) ?sel)"
    unfolding load_volume_def map_map comp_def
    by (rule arg_cong[where f = sum_list], rule map_cong) (use sel(2) in auto)
  have p: "fst (run_search truck orders) = load_payout (map (\<lambda>i. orders ! i) ?sel)"
    unfolding load_payout_def map_map comp_def by (rule run_search_sums)
  show ?thesis
    using sel w v p by (simp add: optimize_eq Let_def comp_def)
qed

theorem optimize_result_consistent_witness:
  "valid_input sample_truck sample_orders
     \<and> load_weight [ord_001, ord_002] = 30000 \<and> load_volume [ord_001, ord_002] = 2100
     \<and> load_payout [ord_001, ord_002] = 430000"
proof -
  have "load_weight (map (\<lambda>i. sample_orders ! i) [0, 1]) = 30000
      \<and> load_volume (map (\<lambda>i. sample_orders ! i) [0, 1]) = 2100
      \<and> load_payout (map (\<lambda>i. sample_orders ! i) [0, 1]) = 430000"
    using optimize_result_consistent[OF sample_valid]
    by (simp add: sample_optimize sample_run_search Let_def)
  then show ?thesis using sample_valid by (simp add: sample_orders_def)
qed

text \<open>
  C6 (search order and bound table). \<open>order_by_value\<close> is a permutation of the order indices,
  sorted by descending payout, and two indices with equal payouts stay in input order.
  \<open>suffix_payout\<close> has length \<open>N + 1\<close>, its last entry is 0, and every other entry is the next
  entry plus the payout of the order at that search position. Hence, when no payout is
  negative, entry \<open>i\<close> bounds the total payout of any choice of candidates at the positions
  from \<open>i\<close> on.
\<close>

theorem search_order_and_bound_table:
  "(let n = length orders;
        obv = order_by_value (make_env truck orders);
        suf = suffix_payout (make_env truck orders);
        payout = (\<lambda>i. payout_cents (orders ! i))
    in length obv = n \<and> distinct obv \<and> set obv = {..< n}
     \<and> (\<forall>a b. a < b \<and> b < n \<longrightarrow>
            payout (obv ! b) \<le> payout (obv ! a)
          \<and> (payout (obv ! a) = payout (obv ! b) \<longrightarrow> obv ! a < obv ! b))
     \<and> length suf = n + 1 \<and> suf ! n = 0
     \<and> (\<forall>i < n. suf ! i = suf ! (i + 1) + payout (obv ! i))
     \<and> (orders_ok orders \<longrightarrow>
          (\<forall>i \<le> n. \<forall>js. subseq js (drop i obv) \<longrightarrow> sum_list (map payout js) \<le> suf ! i)))"
proof -
  let ?ps = "map payout_cents orders"
  let ?obv = "order_by_value_of ?ps"
  let ?suf = "suffix_payout_of ?ps ?obv"
  let ?n = "length orders"
  let ?payout = "\<lambda>i. payout_cents (orders ! i)"
  have len: "length ?obv = ?n" and dist: "distinct ?obv" and st: "set ?obv = {..< ?n}"
    by (simp_all add: length_order_by_value_of distinct_order_by_value_of set_order_by_value_of)
  have lt: "?obv ! a < ?n" if "a < ?n" for a
    using that st len by (metis lessThan_iff nth_mem)
  have pay: "?ps ! (?obv ! a) = ?payout (?obv ! a)" if "a < ?n" for a
    using lt[OF that] by simp
  have desc: "?payout (?obv ! b) \<le> ?payout (?obv ! a)
      \<and> (?payout (?obv ! a) = ?payout (?obv ! b) \<longrightarrow> ?obv ! a < ?obv ! b)"
    if "a < b \<and> b < ?n" for a b
  proof -
    from that have a: "a < ?n" and b: "b < ?n" and ab: "a \<le> b" "a < b" by auto
    have 1: "?ps ! (?obv ! b) \<le> ?ps ! (?obv ! a)"
      using order_by_value_of_descending[of a b ?ps] ab b by simp
    have 2: "?ps ! (?obv ! a) = ?ps ! (?obv ! b) \<Longrightarrow> ?obv ! a < ?obv ! b"
      using order_by_value_of_stable[of a b ?ps] ab b by simp
    from 1 2 show ?thesis unfolding pay[OF a] pay[OF b] by blast
  qed
  have slen: "length ?suf = ?n + 1"
    using length_suffix_payout_of[of ?obv ?ps] len by simp
  have snth: "?suf ! i = sum_list (map (\<lambda>j. ?ps ! j) (drop i ?obv))" if "i \<le> ?n" for i
    using suffix_payout_of_nth[of ?obv ?ps i] len that by simp
  have indrop: "x < ?n" if "x \<in> set (drop i ?obv)" for x i
  proof -
    from that have "x \<in> set ?obv" by (rule in_set_dropD)
    then show ?thesis unfolding st by simp
  qed
  have mapeq: "map (\<lambda>j. ?ps ! j) (drop i ?obv) = map ?payout (drop i ?obv)" for i
  proof (rule map_cong[OF refl])
    fix x assume "x \<in> set (drop i ?obv)"
    then have "x < ?n" by (rule indrop)
    then show "?ps ! x = ?payout x" by simp
  qed
  have s0: "?suf ! ?n = 0" using snth[of ?n] len by simp
  have srec: "?suf ! i = ?suf ! (i + 1) + ?payout (?obv ! i)" if "i < ?n" for i
  proof -
    have "drop i ?obv = ?obv ! i # drop (Suc i) ?obv"
      using that len by (simp add: Cons_nth_drop_Suc)
    then show ?thesis
      using snth[of i] snth[of "i + 1"] that pay[OF that] by simp
  qed
  have bound: "sum_list (map ?payout js) \<le> ?suf ! i"
    if ok: "orders_ok orders" and i: "i \<le> ?n" and js: "subseq js (drop i ?obv)" for i js
  proof -
    have "sum_list (map ?payout js) \<le> sum_list (map ?payout (drop i ?obv))"
    proof (rule sum_list_subseq_le[OF js])
      fix x assume "x \<in> set (drop i ?obv)"
      then have "x < ?n" by (rule indrop)
      then show "0 \<le> ?payout x" using ok unfolding orders_ok_def by simp
    qed
    then show ?thesis using snth[OF i] mapeq[of i] by simp
  qed
  show ?thesis
    unfolding Let_def make_env_simps
    using len dist st desc slen s0 srec bound by blast
qed

theorem search_order_and_bound_table_witness:
  "orders_ok sample_orders
     \<and> subseq [0, 1] (drop 1 (order_by_value (make_env sample_truck sample_orders)))
     \<and> sum_list (map (\<lambda>i. payout_cents (sample_orders ! i)) [0, 1])
          \<le> suffix_payout (make_env sample_truck sample_orders) ! 1"
proof -
  have sub: "subseq [0, 1] (drop 1 (order_by_value (make_env sample_truck sample_orders)))"
    by (simp only: sample_tables) simp
  have "\<forall>i \<le> length sample_orders. \<forall>js.
          subseq js (drop i (order_by_value (make_env sample_truck sample_orders))) \<longrightarrow>
          sum_list (map (\<lambda>i. payout_cents (sample_orders ! i)) js)
            \<le> suffix_payout (make_env sample_truck sample_orders) ! i"
    using search_order_and_bound_table[of sample_orders sample_truck] sample_orders_ok
    unfolding Let_def by blast
  moreover have "1 \<le> length sample_orders" by (simp add: sample_orders_def)
  ultimately have "sum_list (map (\<lambda>i. payout_cents (sample_orders ! i)) [0, 1])
          \<le> suffix_payout (make_env sample_truck sample_orders) ! 1"
    using sub by blast
  with sub sample_orders_ok show ?thesis by blast
qed

text \<open>
  C7 (empty order list). For every truck with positive capacities, \<open>optimize_load\<close> on the
  empty order list returns normally: no identifiers, payout, weight and volume 0, and both
  utilization percentages 0.
\<close>

theorem optimize_load_empty:
  assumes "truck_ok truck"
  shows "optimize_load truck [] =
           Inr \<lparr> result_truck_id = truck_id truck, selected_order_ids = [],
                 total_payout_cents = 0, total_weight_lbs = 0, total_volume_cuft = 0,
                 utilization_weight_percent = Finite 0, utilization_volume_percent = Finite 0 \<rparr>"
  by (simp add: optimize_load_def optimize_def utilization_zero py_round2_zero)

theorem optimize_load_empty_witness:
  "truck_ok sample_truck \<and> optimize_load sample_truck [] =
           Inr \<lparr> result_truck_id = ''truck-123'', selected_order_ids = [],
                 total_payout_cents = 0, total_weight_lbs = 0, total_volume_cuft = 0,
                 utilization_weight_percent = Finite 0, utilization_volume_percent = Finite 0 \<rparr>"
proof -
  have ok: "truck_ok sample_truck" by (simp add: truck_ok_def sample_truck_def)
  show ?thesis using optimize_load_empty[OF ok] ok by (simp add: sample_truck_def)
qed

text \<open>
  C8 (utilization). For every input, also one whose capacities are not positive,
  \<open>optimize_load\<close> never divides by a capacity that is not positive: it never raises
  \<open>ZeroDivisionError\<close>. In every result it returns, a utilization is 0 when the capacity is
  not positive. When the capacity is positive, the utilization is the returned total divided
  by the capacity, times 100, rounded to two decimals, each step rounded to a nearest
  binary64 value (\<open>rounded_percentage\<close>), unless the product by 100 overflowed to an
  infinity. For orders with non-negative payouts and positive weights and volumes no infinity
  arises, and the utilization differs from the exact percentage \<open>100 * total / capacity\<close> by
  at most 0.00501 (\<open>close_to_percentage\<close>). For at most 50 such orders, the bound that the
  request model puts on the order list, \<open>optimize_load\<close> does return a result.
\<close>

theorem optimize_load_utilization:
  "optimize_load truck orders \<noteq> Inl ZeroDivisionError
   \<and> (orders_ok orders \<and> length orders \<le> 50 \<longrightarrow> (\<exists>r. optimize_load truck orders = Inr r))
   \<and> (\<forall>r. optimize_load truck orders = Inr r \<longrightarrow>
         (max_weight_lbs truck \<le> 0 \<longrightarrow> utilization_weight_percent r = Finite 0)
       \<and> (max_volume_cuft truck \<le> 0 \<longrightarrow> utilization_volume_percent r = Finite 0)
       \<and> (0 < max_weight_lbs truck \<longrightarrow>
            utilization_weight_percent r = PosInf \<or> utilization_weight_percent r = NegInf
            \<or> rounded_percentage (total_weight_lbs r) (max_weight_lbs truck)
                 (utilization_weight_percent r))
       \<and> (0 < max_volume_cuft truck \<longrightarrow>
            utilization_volume_percent r = PosInf \<or> utilization_volume_percent r = NegInf
            \<or> rounded_percentage (total_volume_cuft r) (max_volume_cuft truck)
                 (utilization_volume_percent r))
       \<and> (orders_ok orders \<and> 0 < max_weight_lbs truck \<longrightarrow>
            rounded_percentage (total_weight_lbs r) (max_weight_lbs truck)
              (utilization_weight_percent r)
          \<and> close_to_percentage (total_weight_lbs r) (max_weight_lbs truck)
              (utilization_weight_percent r))
       \<and> (orders_ok orders \<and> 0 < max_volume_cuft truck \<longrightarrow>
            rounded_percentage (total_volume_cuft r) (max_volume_cuft truck)
              (utilization_volume_percent r)
          \<and> close_to_percentage (total_volume_cuft r) (max_volume_cuft truck)
              (utilization_volume_percent r)))"
proof -
  define W where "W = sum_list (map (\<lambda>i. map weight_lbs orders ! i) (snd (run_search truck orders)))"
  define V where "V = sum_list (map (\<lambda>i. map volume_cuft orders ! i) (snd (run_search truck orders)))"
  note iff = optimize_load_Inr_iff[of truck orders, folded W_def V_def]
  have 1: "optimize_load truck orders \<noteq> Inl ZeroDivisionError"
    using utilization_cases[of W "max_weight_lbs truck"] utilization_cases[of V "max_volume_cuft truck"]
    by (auto simp: optimize_load_def optimize_eq W_def[symmetric] V_def[symmetric])
  have bounds: "0 \<le> W" "0 \<le> V" "0 \<le> max_weight_lbs truck \<Longrightarrow> W \<le> max_weight_lbs truck"
    "0 \<le> max_volume_cuft truck \<Longrightarrow> V \<le> max_volume_cuft truck" if ok: "orders_ok orders"
    using run_search_totals_nonneg[OF ok, of truck] run_search_weight[of truck orders]
      run_search_volume[of truck orders]
    by (simp_all add: W_def V_def)
  have 2: "\<exists>r. optimize_load truck orders = Inr r" if ok: "orders_ok orders"
  proof -
    have "\<exists>x. utilization W (max_weight_lbs truck) = Inr x"
      using utilization_within[OF bounds(1)[OF ok], of "max_weight_lbs truck"] bounds(3)[OF ok] by simp
    moreover have "\<exists>x. utilization V (max_volume_cuft truck) = Inr x"
      using utilization_within[OF bounds(2)[OF ok], of "max_volume_cuft truck"] bounds(4)[OF ok] by simp
    ultimately show ?thesis unfolding iff by blast
  qed
  have 3: "(max_weight_lbs truck \<le> 0 \<longrightarrow> utilization_weight_percent r = Finite 0)
       \<and> (max_volume_cuft truck \<le> 0 \<longrightarrow> utilization_volume_percent r = Finite 0)
       \<and> (0 < max_weight_lbs truck \<longrightarrow>
            utilization_weight_percent r = PosInf \<or> utilization_weight_percent r = NegInf
            \<or> rounded_percentage (total_weight_lbs r) (max_weight_lbs truck)
                 (utilization_weight_percent r))
       \<and> (0 < max_volume_cuft truck \<longrightarrow>
            utilization_volume_percent r = PosInf \<or> utilization_volume_percent r = NegInf
            \<or> rounded_percentage (total_volume_cuft r) (max_volume_cuft truck)
                 (utilization_volume_percent r))
       \<and> (orders_ok orders \<and> 0 < max_weight_lbs truck \<longrightarrow>
            rounded_percentage (total_weight_lbs r) (max_weight_lbs truck)
              (utilization_weight_percent r)
          \<and> close_to_percentage (total_weight_lbs r) (max_weight_lbs truck)
              (utilization_weight_percent r))
       \<and> (orders_ok orders \<and> 0 < max_volume_cuft truck \<longrightarrow>
            rounded_percentage (total_volume_cuft r) (max_volume_cuft truck)
              (utilization_volume_percent r)
          \<and> close_to_percentage (total_volume_cuft r) (max_volume_cuft truck)
              (utilization_volume_percent r))"
    if r: "optimize_load truck orders = Inr r" for r
  proof -
    from r obtain wu vu where wu: "utilization W (max_weight_lbs truck) = Inr wu"
      and vu: "utilization V (max_volume_cuft truck) = Inr vu"
      and tw: "total_weight_lbs r = W" and tv: "total_volume_cuft r = V"
      and uw: "utilization_weight_percent r = py_round2 wu"
      and uv: "utilization_volume_percent r = py_round2 vu"
      unfolding iff by auto
    have g1: "utilization_weight_percent r = Finite 0" if "max_weight_lbs truck \<le> 0"
      using utilization_guard[OF that, of W] wu by (simp add: uw py_round2_zero)
    have g2: "utilization_volume_percent r = Finite 0" if "max_volume_cuft truck \<le> 0"
      using utilization_guard[OF that, of V] vu by (simp add: uv py_round2_zero)
    have c1: "utilization_weight_percent r = PosInf \<or> utilization_weight_percent r = NegInf
            \<or> rounded_percentage (total_weight_lbs r) (max_weight_lbs truck)
                 (utilization_weight_percent r)" if "0 < max_weight_lbs truck"
      unfolding uw tw using that wu by (rule utilization_positive_cases)
    have c2: "utilization_volume_percent r = PosInf \<or> utilization_volume_percent r = NegInf
            \<or> rounded_percentage (total_volume_cuft r) (max_volume_cuft truck)
                 (utilization_volume_percent r)" if "0 < max_volume_cuft truck"
      unfolding uv tv using that vu by (rule utilization_positive_cases)
    have a1: "rounded_percentage (total_weight_lbs r) (max_weight_lbs truck)
              (utilization_weight_percent r)
          \<and> close_to_percentage (total_weight_lbs r) (max_weight_lbs truck)
              (utilization_weight_percent r)" if "orders_ok orders \<and> 0 < max_weight_lbs truck"
    proof -
      from that have ok: "orders_ok orders" and cap: "0 < max_weight_lbs truck" by simp_all
      from utilization_accurate[OF cap bounds(1)[OF ok]] bounds(3)[OF ok] cap wu
      show ?thesis unfolding uw tw by auto
    qed
    have a2: "rounded_percentage (total_volume_cuft r) (max_volume_cuft truck)
              (utilization_volume_percent r)
          \<and> close_to_percentage (total_volume_cuft r) (max_volume_cuft truck)
              (utilization_volume_percent r)" if "orders_ok orders \<and> 0 < max_volume_cuft truck"
    proof -
      from that have ok: "orders_ok orders" and cap: "0 < max_volume_cuft truck" by simp_all
      from utilization_accurate[OF cap bounds(2)[OF ok]] bounds(4)[OF ok] cap vu
      show ?thesis unfolding uv tv by auto
    qed
    from g1 g2 c1 c2 a1 a2 show ?thesis by blast
  qed
  from 1 2 3 show ?thesis by blast
qed

theorem optimize_load_utilization_witness:
  "orders_ok sample_orders \<and> length sample_orders \<le> 50
   \<and> 0 < max_weight_lbs sample_truck \<and> 0 < max_volume_cuft sample_truck
   \<and> (\<exists>r. optimize_load sample_truck sample_orders = Inr r
          \<and> total_weight_lbs r = 30000 \<and> total_volume_cuft r = 2100
          \<and> utilization_weight_percent r = Finite (1199435244508283 / 17592186044416)
          \<and> utilization_volume_percent r = Finite 70)
   \<and> rounded_percentage 30000 44000 (Finite (1199435244508283 / 17592186044416))
   \<and> close_to_percentage 30000 44000 (Finite (1199435244508283 / 17592186044416))
   \<and> rounded_percentage 2100 3000 (Finite 70)
   \<and> close_to_percentage 2100 3000 (Finite 70)
   \<and> max_weight_lbs zero_capacity_truck \<le> 0
   \<and> (\<exists>r. optimize_load zero_capacity_truck sample_orders = Inr r
          \<and> utilization_weight_percent r = Finite 0)"
proof -
  have ok: "orders_ok sample_orders" by (rule sample_orders_ok)
  have len: "length sample_orders \<le> 50" by (simp add: sample_orders_def)
  have caps: "0 < max_weight_lbs sample_truck" "0 < max_volume_cuft sample_truck"
    "max_weight_lbs sample_truck = 44000" "max_volume_cuft sample_truck = 3000"
    by (simp_all add: sample_truck_def)
  have le: "max_weight_lbs zero_capacity_truck \<le> 0" by (simp add: zero_capacity_truck_def)
  note r = sample_optimize_load
  from optimize_load_utilization[of sample_truck sample_orders] ok caps(1,2) r
  have "rounded_percentage 30000 (max_weight_lbs sample_truck)
          (Finite (1199435244508283 / 17592186044416))
      \<and> close_to_percentage 30000 (max_weight_lbs sample_truck)
          (Finite (1199435244508283 / 17592186044416))
      \<and> rounded_percentage 2100 (max_volume_cuft sample_truck) (Finite 70)
      \<and> close_to_percentage 2100 (max_volume_cuft sample_truck) (Finite 70)"
    by simp
  then have pct: "rounded_percentage 30000 44000 (Finite (1199435244508283 / 17592186044416))
      \<and> close_to_percentage 30000 44000 (Finite (1199435244508283 / 17592186044416))
      \<and> rounded_percentage 2100 3000 (Finite 70)
      \<and> close_to_percentage 2100 3000 (Finite 70)"
    unfolding caps(3,4) .
  from optimize_load_utilization[of zero_capacity_truck sample_orders] ok len
  obtain r0 where r0: "optimize_load zero_capacity_truck sample_orders = Inr r0" by blast
  with optimize_load_utilization[of zero_capacity_truck sample_orders] le
  have z: "utilization_weight_percent r0 = Finite 0" by simp
  from r have s: "\<exists>r. optimize_load sample_truck sample_orders = Inr r
          \<and> total_weight_lbs r = 30000 \<and> total_volume_cuft r = 2100
          \<and> utilization_weight_percent r = Finite (1199435244508283 / 17592186044416)
          \<and> utilization_volume_percent r = Finite 70"
    by simp
  from r0 z have t: "\<exists>r. optimize_load zero_capacity_truck sample_orders = Inr r
          \<and> utilization_weight_percent r = Finite 0" by blast
  from ok len caps(1,2) s pct le t show ?thesis by blast
qed

text \<open>
  C9 (monotonicity). For every truck and order list that satisfy the input preconditions,
  inserting at any position an additional order with a non-negative payout that is dominated
  by an order of the list does not decrease the payout returned by \<open>optimize\<close>.
\<close>

theorem dominated_order_monotone:
  assumes "valid_input truck orders" "dominated orders new" "0 \<le> payout_cents new"
  shows "fst (snd (optimize truck orders))
           \<le> fst (snd (optimize truck (take k orders @ new # drop k orders)))"
proof -
  from assms(2) obtain d where d: "d \<in> set orders" "weight_lbs d \<le> weight_lbs new"
    "volume_cuft d \<le> volume_cuft new"
    unfolding dominated_def by blast
  from assms(1) have ok: "orders_ok orders" by (simp add: valid_input_def)
  with d have new: "0 < weight_lbs new" "0 < volume_cuft new"
    unfolding orders_ok_def by fastforce+
  have "set (take k orders @ new # drop k orders) \<subseteq> insert new (set orders)"
    by (auto dest: in_set_takeD in_set_dropD)
  with ok new assms(3) have ok': "orders_ok (take k orders @ new # drop k orders)"
    unfolding orders_ok_def by blast
  have "subseq (take k orders @ drop k orders) (take k orders @ new # drop k orders)"
    unfolding subseq_append' by (rule list_emb_Cons) (rule subseq_order.refl)
  then have sub: "subseq orders (take k orders @ new # drop k orders)"
    by (simp only: append_take_drop_id)
  show ?thesis
    using optimize_payout_mono_subseq[OF assms(1) ok' sub] by (simp add: optimize_eq)
qed

theorem dominated_order_monotone_witness:
  "valid_input sample_truck sample_orders \<and> dominated sample_orders ord_dominated
     \<and> 0 \<le> payout_cents ord_dominated
     \<and> fst (snd (optimize sample_truck sample_orders))
          \<le> fst (snd (optimize sample_truck [ord_001, ord_dominated, ord_002, ord_003]))"
proof -
  have p: "0 \<le> payout_cents ord_dominated" by (simp add: ord_dominated_def)
  have "take 1 sample_orders @ ord_dominated # drop 1 sample_orders
          = [ord_001, ord_dominated, ord_002, ord_003]"
    by (simp add: sample_orders_def)
  with dominated_order_monotone[OF sample_valid sample_dominated p, of 1]
  show ?thesis using sample_valid sample_dominated p by simp
qed

text \<open>
  C10 (orders that pay nothing). For every truck and order list that satisfy the input
  preconditions, every selected order has a positive payout: the incumbent starts at payout
  0 and is replaced only by a strictly greater payout, and a node whose remaining candidates
  all pay nothing is pruned. So, when the identifiers of the request are distinct, the
  identifier of an order with payout 0 is not returned, even if the order would fit and is
  compatible with every selected order.
\<close>

theorem zero_payout_not_selected:
  assumes "valid_input truck orders"
  shows "(let sel = snd (run_search truck orders) in
            fst (optimize truck orders) = map (\<lambda>i. order_id (orders ! i)) sel
          \<and> (\<forall>i \<in> set sel. i < length orders \<and> 0 < payout_cents (orders ! i))
          \<and> (distinct (map order_id orders) \<longrightarrow>
               (\<forall>ord \<in> set orders. payout_cents ord = 0 \<longrightarrow>
                  order_id ord \<notin> set (fst (optimize truck orders)))))"
proof -
  let ?sel = "snd (run_search truck orders)"
  have lt: "i < length orders" if "i \<in> set ?sel" for i
    using run_search_selection(2)[of truck orders] that by auto
  have pos: "0 < payout_cents (orders ! i)" if "i \<in> set ?sel" for i
    using that by (rule run_search_positive)
  have ids: "order_id ord \<notin> set (map (\<lambda>i. order_id (orders ! i)) ?sel)"
    if dist: "distinct (map order_id orders)" and ord: "ord \<in> set orders" "payout_cents ord = 0" for ord
  proof
    assume "order_id ord \<in> set (map (\<lambda>i. order_id (orders ! i)) ?sel)"
    then obtain i where i: "i \<in> set ?sel" "order_id ord = order_id (orders ! i)" by auto
    from ord(1) obtain j where j: "j < length orders" "ord = orders ! j"
      by (auto simp: in_set_conv_nth)
    have "map order_id orders ! j = map order_id orders ! i"
      using i(2) j lt[OF i(1)] by simp
    then have "j = i"
      using nth_eq_iff_index_eq[OF dist, of j i] j(1) lt[OF i(1)] by simp
    with pos[OF i(1)] j(2) ord(2) show False by simp
  qed
  show ?thesis
    unfolding Let_def using lt pos ids by (simp add: optimize_eq)
qed

theorem zero_payout_not_selected_witness:
  "valid_input sample_truck [ord_001, ord_002, ord_003, ord_free]
     \<and> distinct (map order_id [ord_001, ord_002, ord_003, ord_free])
     \<and> payout_cents ord_free = 0
     \<and> feasible_load sample_truck [ord_001, ord_002, ord_free]
     \<and> order_id ord_free \<notin> set (fst (optimize sample_truck [ord_001, ord_002, ord_003, ord_free]))"
proof -
  have v: "valid_input sample_truck [ord_001, ord_002, ord_003, ord_free]"
    by (simp add: valid_input_def truck_ok_def orders_ok_def sample_truck_def
        ord_001_def ord_002_def ord_003_def ord_free_def)
  have d: "distinct (map order_id [ord_001, ord_002, ord_003, ord_free])"
    by (simp add: ord_001_def ord_002_def ord_003_def ord_free_def)
  have z: "payout_cents ord_free = 0" by (simp add: ord_free_def)
  have "distinct (map order_id [ord_001, ord_002, ord_003, ord_free]) \<longrightarrow>
          (\<forall>ord \<in> set [ord_001, ord_002, ord_003, ord_free]. payout_cents ord = 0 \<longrightarrow>
             order_id ord \<notin> set (fst (optimize sample_truck [ord_001, ord_002, ord_003, ord_free])))"
    using zero_payout_not_selected[OF v] unfolding Let_def by blast
  moreover have "ord_free \<in> set [ord_001, ord_002, ord_003, ord_free]" by simp
  ultimately have "order_id ord_free
      \<notin> set (fst (optimize sample_truck [ord_001, ord_002, ord_003, ord_free]))"
    using d z by blast
  with v d z sample_free_feasible show ?thesis by blast
qed

end
